theory Spec2Isabelle
  imports Main "HOL-Library.Word" "HOL-Library.Multiset"
begin

section \<open>Memory\<close>

text \<open>
  The platform is taken to be LP64: \<open>size_t\<close> and pointers are 64 bits wide, \<open>int\<close>
  is 32 bits wide. \<open>size_t\<close> is a 64-bit word: \<open>+\<close>, \<open>-\<close> and \<open>*\<close> wrap around as the C
  operators on \<open>size_t\<close> do. A memory object is the list of its bytes. A pointer argument of the
  source is modelled by the bytes that lie between the pointer and the end of the
  object it points into; an output pointer is modelled by returning those bytes
  updated. Caller-owned buffers are objects of their own, disjoint from the buffer a
  vector owns. An access that leaves its object is undefined behaviour in C; it is the
  value \<open>Inl OutOfBounds\<close> here, and an \<open>int\<close> computation that overflows is
  \<open>Inl SignedOverflow\<close>. \<open>malloc\<close> and \<open>realloc\<close> are modelled as always
  returning an object of the requested size (the source never checks their result);
  the bytes they leave uninitialised are read from a function \<open>u\<close> about which
  nothing is assumed.
\<close>

type_synonym byte = "8 word"
type_synonym size_t = "64 word"

datatype error = OutOfBounds | InvalidPointer | SignedOverflow

definition mem_read :: "byte list \<Rightarrow> nat \<Rightarrow> nat \<Rightarrow> error + byte list" where
  "mem_read b off k =
     (if off + k \<le> length b then Inr (take k (drop off b)) else Inl OutOfBounds)"

definition mem_write :: "byte list \<Rightarrow> nat \<Rightarrow> byte list \<Rightarrow> error + byte list" where
  "mem_write b off bs =
     (if off + length bs \<le> length b
      then Inr (take off b @ bs @ drop (off + length bs) b)
      else Inl OutOfBounds)"

text \<open>\<open>memset(b + off, c, k)\<close>.\<close>

definition memset :: "byte list \<Rightarrow> nat \<Rightarrow> byte \<Rightarrow> nat \<Rightarrow> error + byte list" where
  "memset b off c k = mem_write b off (replicate k c)"

text \<open>
  \<open>memcpy(b + off, src, k)\<close> and \<open>memmove(b + off, src, k)\<close>: the \<open>k\<close> source bytes are
  read, then written. The source is passed by value, so both behave as \<open>memmove\<close>
  does when source and destination overlap.
\<close>

definition memcpy :: "byte list \<Rightarrow> nat \<Rightarrow> byte list \<Rightarrow> nat \<Rightarrow> error + byte list" where
  "memcpy b off src k =
     (case mem_read src 0 k of Inl e \<Rightarrow> Inl e | Inr bs \<Rightarrow> mem_write b off bs)"

definition memmove :: "byte list \<Rightarrow> nat \<Rightarrow> byte list \<Rightarrow> nat \<Rightarrow> error + byte list" where
  "memmove b off src k =
     (case mem_read src 0 k of Inl e \<Rightarrow> Inl e | Inr bs \<Rightarrow> mem_write b off bs)"

text \<open>
  \<open>memcmp\<close>: the difference of the first pair of bytes that differ, read as
  \<open>unsigned char\<close>; 0 when there is none.
\<close>

fun bytes_cmp :: "byte list \<Rightarrow> byte list \<Rightarrow> int" where
  "bytes_cmp (x # xs) (y # ys) =
     (if x = y then bytes_cmp xs ys else int (unat x) - int (unat y))"
| "bytes_cmp _ _ = 0"

definition memcmp :: "byte list \<Rightarrow> byte list \<Rightarrow> nat \<Rightarrow> error + int" where
  "memcmp p1 p2 k =
     (case mem_read p1 0 k of
        Inl e \<Rightarrow> Inl e
      | Inr xs \<Rightarrow>
          (case mem_read p2 0 k of Inl e \<Rightarrow> Inl e | Inr ys \<Rightarrow> Inr (bytes_cmp xs ys)))"

text \<open>The bytes \<open>malloc\<close> and \<open>realloc\<close> leave uninitialised, at offsets \<open>a..<b\<close>.\<close>

definition fresh :: "(nat \<Rightarrow> byte) \<Rightarrow> nat \<Rightarrow> nat \<Rightarrow> byte list" where
  "fresh u a b = map u [a..<b]"

section \<open>The vector\<close>

text \<open>
  Modelled from the spec: \<open>struct Vec\<close> is declared in \<open>vector.h\<close>, which is not among
  the sources. Its fields are the four the source uses (\<open>v->ptr\<close>, \<open>v->size\<close>,
  \<open>v->len\<close>, \<open>v->cap\<close>) and the spec's data model lists (buffer, stride, length,
  capacity). \<open>ptr\<close> is the object \<open>v->ptr\<close> points to (its bytes), \<open>size_v\<close> is the
  field \<open>size\<close> (the byte size of one element; a parameter of that name is \<open>sz\<close>),
  \<open>len\<close> and \<open>cap\<close> count elements.
\<close>

record Vec =
  ptr :: "byte list"
  size_v :: size_t
  len :: size_t
  cap :: size_t

definition GROWTH_FACTOR :: size_t where
  "GROWTH_FACTOR = 2"

text \<open>\<open>v_at\<close>: the byte offset of \<open>v->ptr + (pos * v->size)\<close> from \<open>v->ptr\<close>.\<close>

definition v_at :: "Vec \<Rightarrow> size_t \<Rightarrow> nat" where
  "v_at v pos = unat (pos * size_v v)"

text \<open>The pointer \<open>v_at(v, pos)\<close> passed on as an argument: the buffer from there on.\<close>

definition v_at_ptr :: "Vec \<Rightarrow> size_t \<Rightarrow> byte list" where
  "v_at_ptr v pos = drop (v_at v pos) (ptr v)"

definition v_set :: "Vec \<Rightarrow> size_t \<Rightarrow> size_t \<Rightarrow> error + Vec" where
  "v_set v pos n =
     (case memset (ptr v) (v_at v pos) 0 (unat (n * size_v v)) of
        Inl e \<Rightarrow> Inl e
      | Inr b \<Rightarrow> Inr (v\<lparr>ptr := b\<rparr>))"

definition v_cpy :: "Vec \<Rightarrow> size_t \<Rightarrow> byte list \<Rightarrow> size_t \<Rightarrow> error + Vec" where
  "v_cpy v pos source n =
     (case memcpy (ptr v) (v_at v pos) source (unat (n * size_v v)) of
        Inl e \<Rightarrow> Inl e
      | Inr b \<Rightarrow> Inr (v\<lparr>ptr := b\<rparr>))"

definition v_cpy_to :: "byte list \<Rightarrow> Vec \<Rightarrow> size_t \<Rightarrow> size_t \<Rightarrow> error + byte list" where
  "v_cpy_to dest v pos n = memcpy dest 0 (v_at_ptr v pos) (unat (n * size_v v))"

definition v_move :: "Vec \<Rightarrow> size_t \<Rightarrow> byte list \<Rightarrow> size_t \<Rightarrow> error + Vec" where
  "v_move v pos source n =
     (case memmove (ptr v) (v_at v pos) source (unat (n * size_v v)) of
        Inl e \<Rightarrow> Inl e
      | Inr b \<Rightarrow> Inr (v\<lparr>ptr := b\<rparr>))"

definition v_cmp :: "Vec \<Rightarrow> size_t \<Rightarrow> byte list \<Rightarrow> size_t \<Rightarrow> error + int" where
  "v_cmp v pos ptr2 n = memcmp (v_at_ptr v pos) ptr2 (unat (n * size_v v))"

definition v_alloc :: "(nat \<Rightarrow> byte) \<Rightarrow> Vec \<Rightarrow> size_t \<Rightarrow> Vec" where
  "v_alloc u v n = v\<lparr>ptr := fresh u 0 (unat (n * size_v v)), cap := n\<rparr>"

text \<open>\<open>realloc\<close> keeps the old bytes up to the smaller of the two sizes.\<close>

definition v_realloc :: "(nat \<Rightarrow> byte) \<Rightarrow> Vec \<Rightarrow> size_t \<Rightarrow> Vec" where
  "v_realloc u v n =
     v\<lparr>ptr := take (unat (n * size_v v)) (ptr v)
               @ fresh u (length (ptr v)) (unat (n * size_v v)),
       cap := n\<rparr>"

definition v_resize :: "(nat \<Rightarrow> byte) \<Rightarrow> Vec \<Rightarrow> size_t \<Rightarrow> Vec" where
  "v_resize u v n =
     (if cap v \<noteq> 0 then
        (if n < cap v \<or> n > cap v * GROWTH_FACTOR then v_realloc u v n
         else if n > cap v then v_realloc u v (cap v * GROWTH_FACTOR)
         else v)
      else v_alloc u v (if n > GROWTH_FACTOR then n else GROWTH_FACTOR))"

definition vec_new :: "Vec \<Rightarrow> size_t \<Rightarrow> Vec" where
  "vec_new v sz = v\<lparr>cap := 0, len := 0, size_v := sz\<rparr>"

definition vec_reserve :: "(nat \<Rightarrow> byte) \<Rightarrow> Vec \<Rightarrow> size_t \<Rightarrow> Vec" where
  "vec_reserve u v n = (if n > cap v then v_resize u v n else v)"

definition vec_new_with :: "(nat \<Rightarrow> byte) \<Rightarrow> Vec \<Rightarrow> size_t \<Rightarrow> size_t \<Rightarrow> Vec" where
  "vec_new_with u v sz n = vec_reserve u (vec_new v sz) n"

text \<open>The call in the source is \<open>vec_new_with(v, n, size)\<close>, in this order.\<close>

definition vec_init :: "(nat \<Rightarrow> byte) \<Rightarrow> Vec \<Rightarrow> size_t \<Rightarrow> size_t \<Rightarrow> error + Vec" where
  "vec_init u v sz n =
     (case v_set (vec_new_with u v n sz) 0 n of
        Inl e \<Rightarrow> Inl e
      | Inr v' \<Rightarrow> Inr (v'\<lparr>len := n\<rparr>))"

definition vec_insert_n ::
  "(nat \<Rightarrow> byte) \<Rightarrow> Vec \<Rightarrow> byte list \<Rightarrow> size_t \<Rightarrow> size_t \<Rightarrow> error + Vec" where
  "vec_insert_n u v elems n pos =
     (if pos \<le> len v then
        (let v1 = vec_reserve u v (len v + n) in
         case v_move v1 (pos + n) (v_at_ptr v1 pos) (len v1 - pos) of
           Inl e \<Rightarrow> Inl e
         | Inr v2 \<Rightarrow>
             (case v_cpy v2 pos elems n of
                Inl e \<Rightarrow> Inl e
              | Inr v3 \<Rightarrow> Inr (v3\<lparr>len := len v3 + n\<rparr>)))
      else Inr v)"

text \<open>The call in the source is \<open>vec_insert_n(v, arr, 0, n)\<close>, in this order.\<close>

definition vec_from ::
  "(nat \<Rightarrow> byte) \<Rightarrow> Vec \<Rightarrow> size_t \<Rightarrow> byte list \<Rightarrow> size_t \<Rightarrow> error + Vec" where
  "vec_from u v sz arr n = vec_insert_n u (vec_new v sz) arr 0 n"

text \<open>\<open>free\<close> leaves \<open>v->ptr\<close> pointing at no object.\<close>

definition vec_clear :: "Vec \<Rightarrow> Vec" where
  "vec_clear v = (if cap v \<noteq> 0 then v\<lparr>ptr := []\<rparr> else v)\<lparr>cap := 0, len := 0\<rparr>"

definition vec_shrink_to_fit :: "(nat \<Rightarrow> byte) \<Rightarrow> Vec \<Rightarrow> Vec" where
  "vec_shrink_to_fit u v = (if cap v \<noteq> 0 then v_resize u v (len v) else v)"

definition vec_insert ::
  "(nat \<Rightarrow> byte) \<Rightarrow> Vec \<Rightarrow> byte list \<Rightarrow> size_t \<Rightarrow> error + Vec" where
  "vec_insert u v elem pos = vec_insert_n u v elem 1 pos"

definition vec_push :: "(nat \<Rightarrow> byte) \<Rightarrow> Vec \<Rightarrow> byte list \<Rightarrow> error + Vec" where
  "vec_push u v elem = vec_insert u v elem (len v)"

text \<open>An output pointer that may be \<open>NULL\<close> is an option: \<open>None\<close> is \<open>NULL\<close>.\<close>

definition vec_pop :: "Vec \<Rightarrow> byte list option \<Rightarrow> error + Vec \<times> byte list option" where
  "vec_pop v elem =
     (if len v \<noteq> 0 then
        (case elem of
           None \<Rightarrow> Inr (v\<lparr>len := len v - 1\<rparr>, None)
         | Some d \<Rightarrow>
             (case v_cpy_to d v (len v - 1) 1 of
                Inl e \<Rightarrow> Inl e
              | Inr d' \<Rightarrow> Inr (v\<lparr>len := len v - 1\<rparr>, Some d')))
      else Inr (v, elem))"

definition vec_remove_n ::
  "Vec \<Rightarrow> size_t \<Rightarrow> byte list option \<Rightarrow> size_t \<Rightarrow> error + Vec \<times> byte list option" where
  "vec_remove_n v pos elems n =
     (if pos + n - 1 < len v then
        (case (case elems of
                 None \<Rightarrow> Inr None
               | Some d \<Rightarrow>
                   (case v_cpy_to d v pos n of Inl e \<Rightarrow> Inl e | Inr d' \<Rightarrow> Inr (Some d'))) of
           Inl e \<Rightarrow> Inl e
         | Inr out \<Rightarrow>
             (case (if pos + n < len v
                    then v_move v pos (v_at_ptr v (pos + n)) (len v - (pos + n))
                    else Inr v) of
                Inl e \<Rightarrow> Inl e
              | Inr v' \<Rightarrow> Inr (v'\<lparr>len := len v' - n\<rparr>, out)))
      else Inr (v, elems))"

definition vec_remove ::
  "Vec \<Rightarrow> size_t \<Rightarrow> byte list option \<Rightarrow> error + Vec \<times> byte list option" where
  "vec_remove v pos elem = vec_remove_n v pos elem 1"

definition vec_get :: "Vec \<Rightarrow> size_t \<Rightarrow> byte list \<Rightarrow> error + byte list" where
  "vec_get v pos elem = (if pos < len v then v_cpy_to elem v pos 1 else Inr elem)"

definition vec_set :: "Vec \<Rightarrow> byte list \<Rightarrow> size_t \<Rightarrow> error + Vec" where
  "vec_set v elem pos = (if pos < len v then v_cpy v pos elem 1 else Inr v)"

definition vec_len :: "Vec \<Rightarrow> size_t" where
  "vec_len v = len v"

definition vec_capacity :: "Vec \<Rightarrow> size_t" where
  "vec_capacity v = cap v"

definition vec_swap :: "Vec \<Rightarrow> size_t \<Rightarrow> size_t \<Rightarrow> byte list \<Rightarrow> error + Vec \<times> byte list" where
  "vec_swap v pos1 pos2 tmp =
     (case v_cpy_to tmp v pos1 1 of
        Inl e \<Rightarrow> Inl e
      | Inr tmp' \<Rightarrow>
          (case v_cpy v pos1 (v_at_ptr v pos2) 1 of
             Inl e \<Rightarrow> Inl e
           | Inr v1 \<Rightarrow>
               (case v_cpy v1 pos2 tmp' 1 of
                  Inl e \<Rightarrow> Inl e
                | Inr v2 \<Rightarrow> Inr (v2, tmp'))))"

text \<open>
  The byte offsets of the buffer that a one-element \<open>memcpy\<close> at \<open>v_at(v, pos)\<close>
  reads or writes. \<open>vec_swap\<close> reads the slot of \<open>pos1\<close> (into \<open>tmp\<close>) and the slot of
  \<open>pos2\<close>, and writes the slot of \<open>pos1\<close> and the slot of \<open>pos2\<close>.
\<close>

definition slot :: "Vec \<Rightarrow> size_t \<Rightarrow> nat set" where
  "slot v pos = {v_at v pos ..< v_at v pos + unat (1 * size_v v)}"

text \<open>
  \<open>vec_sort\<close>. The counters \<open>i\<close> and \<open>j\<close> are C \<open>int\<close>s, converted to \<open>size_t\<close> where
  they meet \<open>v->len\<close> or are passed as positions; \<open>order\<close> is an \<open>int\<close>, and the
  product with the result of \<open>v_cmp\<close> is an \<open>int\<close> product. The scratch element
  \<open>pval\<close> is the array \<open>val[256]\<close>, or \<open>malloc(v->size)\<close> for larger elements. The
  values \<open>VEC_SORT_ASC\<close> and \<open>VEC_SORT_DESC\<close> of \<open>order\<close> are defined in \<open>vector.h\<close>,
  which is not among the sources: \<open>order\<close> is a parameter, and by the test in the
  inner loop a positive \<open>order\<close> sorts ascending, a negative one descending.
\<close>

definition INT_MAX :: int where
  "INT_MAX = 2147483647"

definition INT_MIN :: int where
  "INT_MIN = - 2147483648"

definition int_mult :: "int \<Rightarrow> int \<Rightarrow> error + int" where
  "int_mult a b =
     (if INT_MIN \<le> a * b \<and> a * b \<le> INT_MAX then Inr (a * b) else Inl SignedOverflow)"

function sort_inner ::
  "Vec \<Rightarrow> int \<Rightarrow> byte list \<Rightarrow> int \<Rightarrow> int \<Rightarrow> error + Vec \<times> byte list" where
  "sort_inner v order pval i j =
     (if (word_of_int j :: size_t) < len v then
        (case v_cmp v (word_of_int i) (v_at_ptr v (word_of_int j)) 1 of
           Inl e \<Rightarrow> Inl e
         | Inr c \<Rightarrow>
             (case int_mult c order of
                Inl e \<Rightarrow> Inl e
              | Inr m \<Rightarrow>
                  (case (if m > 0 then vec_swap v (word_of_int i) (word_of_int j) pval
                         else Inr (v, pval)) of
                     Inl e \<Rightarrow> Inl e
                   | Inr (v', pval') \<Rightarrow>
                       if j < INT_MAX then sort_inner v' order pval' i (j + 1)
                       else Inl SignedOverflow)))
      else Inr (v, pval))"
  by pat_completeness auto
termination
  by (relation "measure (\<lambda>(v, order, pval, i, j). nat (INT_MAX - j))") auto

function sort_outer ::
  "Vec \<Rightarrow> int \<Rightarrow> byte list \<Rightarrow> int \<Rightarrow> error + Vec \<times> byte list" where
  "sort_outer v order pval i =
     (if (word_of_int i :: size_t) < len v then
        (if i < INT_MAX then
           (case sort_inner v order pval i (i + 1) of
              Inl e \<Rightarrow> Inl e
            | Inr (v', pval') \<Rightarrow> sort_outer v' order pval' (i + 1))
         else Inl SignedOverflow)
      else Inr (v, pval))"
  by pat_completeness auto
termination
  by (relation "measure (\<lambda>(v, order, pval, i). nat (INT_MAX - i))") auto

declare sort_inner.simps [simp del] sort_outer.simps [simp del]

definition vec_sort :: "(nat \<Rightarrow> byte) \<Rightarrow> Vec \<Rightarrow> int \<Rightarrow> error + Vec" where
  "vec_sort u v order =
     (let pval = (if size_v v < 256 then fresh u 0 256 else fresh u 0 (unat (size_v v)))
      in case sort_outer v order pval 0 of
           Inl e \<Rightarrow> Inl e
         | Inr (v', pval') \<Rightarrow> Inr v')"

section \<open>The arena\<close>

text \<open>
  Modelled from the spec: \<open>struct ArenaNode\<close> and \<open>struct Arena\<close> are declared in
  \<open>arena.h\<close>, which is not among the sources. The spec's data model gives a node as
  the link \<open>next\<close> (the field \<open>next_node\<close>) followed immediately by the payload, and an arena as the pointer
  \<open>head\<close>; the source's comment gives \<open>sizeof(ArenaNode) == sizeof(void *)\<close>, 8 bytes
  here. The heap maps the address of each live node to the node; \<open>0\<close> is \<open>NULL\<close>.
  The address \<open>malloc\<close> or \<open>realloc\<close> returns is the allocator's choice: it is the
  argument \<open>a\<close> of the operations.
\<close>

type_synonym addr = "64 word"

record ArenaNode =
  next_node :: addr
  payload :: "byte list"

record Arena =
  head :: addr

type_synonym heap = "addr \<Rightarrow> ArenaNode option"

definition sizeof_ArenaNode :: size_t where
  "sizeof_ArenaNode = 8"

definition arena_init :: "Arena \<Rightarrow> Arena" where
  "arena_init arena = arena\<lparr>head := 0\<rparr>"

text \<open>
  \<open>malloc(sizeof(ArenaNode) + bytes)\<close>: the sum wraps; an object too small for the
  link makes the store to \<open>next->next\<close> leave it.
\<close>

definition arena_alloc ::
  "(nat \<Rightarrow> byte) \<Rightarrow> addr \<Rightarrow> heap \<times> Arena \<Rightarrow> size_t \<Rightarrow> error + (heap \<times> Arena) \<times> addr" where
  "arena_alloc u a s bytes =
     (case s of (h, arena) \<Rightarrow>
        (let total = unat (sizeof_ArenaNode + bytes) in
         if total < unat sizeof_ArenaNode then Inl OutOfBounds
         else Inr ((h(a \<mapsto> \<lparr>next_node = head arena,
                              payload = fresh u 0 (total - unat sizeof_ArenaNode)\<rparr>),
                    arena\<lparr>head := a\<rparr>),
                   a + sizeof_ArenaNode)))"

text \<open>
  The search loop of \<open>arena_realloc\<close>; it yields \<open>prev\<close> and \<open>curr\<close> (here \<open>cur\<close>) as the loop
  leaves them. Reading \<open>curr->next\<close> at an address that holds no node is the error
  \<open>InvalidPointer\<close>; a loop that never ends is \<open>None\<close>.
\<close>

partial_function (option) find_node ::
  "heap \<Rightarrow> addr \<Rightarrow> addr \<Rightarrow> addr \<Rightarrow> (error + addr \<times> addr) option" where
  "find_node h needle prev cur =
     (if cur \<noteq> 0 \<and> cur \<noteq> needle then
        (case h cur of
           None \<Rightarrow> Some (Inl InvalidPointer)
         | Some nd \<Rightarrow> find_node h needle cur (next_node nd))
      else Some (Inr (prev, cur)))"

text \<open>
  \<open>realloc\<close> moves the node to the address \<open>a\<close> (which may be the old address),
  keeping the link and the payload up to the smaller of the two sizes. The value
  returned is \<open>((char *)next) + sizeof(ArenaNode)\<close>, as in the source.
\<close>

definition arena_realloc ::
  "(nat \<Rightarrow> byte) \<Rightarrow> addr \<Rightarrow> heap \<times> Arena \<Rightarrow> size_t \<Rightarrow> addr
     \<Rightarrow> (error + (heap \<times> Arena) \<times> addr) option" where
  "arena_realloc u a s bytes prev_allocation =
     (case s of (h, arena) \<Rightarrow>
        if head arena \<noteq> 0 then
          (let needle = prev_allocation - sizeof_ArenaNode in
           case find_node h needle 0 (head arena) of
             None \<Rightarrow> None
           | Some (Inl e) \<Rightarrow> Some (Inl e)
           | Some (Inr (prev, cur)) \<Rightarrow>
               if cur \<noteq> 0 then
                 (case h cur of
                    None \<Rightarrow> Some (Inl InvalidPointer)
                  | Some nd \<Rightarrow>
                      (let nxt = next_node nd;
                           total = unat (sizeof_ArenaNode + bytes);
                           k = total - unat sizeof_ArenaNode;
                           h1 = (h(needle := None))
                                  (a \<mapsto> \<lparr>next_node = nxt,
                                         payload = take k (payload nd)
                                                   @ fresh u (length (payload nd)) k\<rparr>)
                       in if total < unat sizeof_ArenaNode then Some (Inl OutOfBounds)
                          else if prev \<noteq> 0 then
                            (case h1 prev of
                               None \<Rightarrow> Some (Inl InvalidPointer)
                             | Some pn \<Rightarrow>
                                 Some (Inr ((h1(prev \<mapsto> pn\<lparr>next_node := a\<rparr>), arena),
                                            nxt + sizeof_ArenaNode)))
                          else Some (Inr ((h1, arena\<lparr>head := a\<rparr>),
                                          nxt + sizeof_ArenaNode))))
               else Some (Inr ((h, arena), 0)))
        else Some (Inr ((h, arena), 0)))"

text \<open>The list of node addresses reachable from \<open>a\<close>, ending at \<open>NULL\<close>.\<close>

fun nodes :: "heap \<Rightarrow> addr \<Rightarrow> addr list \<Rightarrow> bool" where
  "nodes h a [] \<longleftrightarrow> a = 0"
| "nodes h a (x # xs) \<longleftrightarrow>
     a = x \<and> a \<noteq> 0 \<and> (case h a of None \<Rightarrow> False | Some nd \<Rightarrow> nodes h (next_node nd) xs)"

section \<open>What a caller observes of a vector\<close>

text \<open>The valid element region \<open>buffer[0, length * stride)\<close> and its elements.\<close>

definition contents :: "Vec \<Rightarrow> byte list" where
  "contents v = take (unat (len v) * unat (size_v v)) (ptr v)"

definition valid_region :: "Vec \<Rightarrow> nat set" where
  "valid_region v = {0 ..< unat (len v) * unat (size_v v)}"

definition elem_at :: "Vec \<Rightarrow> nat \<Rightarrow> byte list" where
  "elem_at v i = take (unat (size_v v)) (drop (i * unat (size_v v)) (ptr v))"

definition elems_of :: "Vec \<Rightarrow> byte list list" where
  "elems_of v = map (elem_at v) [0..<unat (len v)]"

text \<open>
  A valid vector: the stride is positive, \<open>len \<le> cap\<close>, the buffer is valid for
  \<open>cap * size\<close> bytes, and neither an element nor the buffer is larger than
  \<open>PTRDIFF_MAX\<close> bytes, the largest object a C implementation supports.
\<close>

definition PTRDIFF_MAX :: nat where
  "PTRDIFF_MAX = 2 ^ 63 - 1"

definition vec_ok :: "Vec \<Rightarrow> bool" where
  "vec_ok v \<longleftrightarrow>
     0 < size_v v \<and> len v \<le> cap v \<and> unat (size_v v) \<le> PTRDIFF_MAX \<and>
     unat (cap v) * unat (size_v v) \<le> PTRDIFF_MAX \<and>
     unat (cap v) * unat (size_v v) \<le> length (ptr v)"

section \<open>The loops of \<open>vec_sort\<close> on the list of elements\<close>

text \<open>
  The two loops of \<open>vec_sort\<close> as they act on the list of elements, for the proofs
  about sorting: \<open>gt a b\<close> stands for the test \<open>v_cmp(...) * order > 0\<close>, under which
  the elements at \<open>i\<close> and \<open>j\<close> are exchanged.
\<close>

function exchange_inner :: "('a \<Rightarrow> 'a \<Rightarrow> bool) \<Rightarrow> 'a list \<Rightarrow> nat \<Rightarrow> nat \<Rightarrow> 'a list" where
  "exchange_inner gt xs i j =
     (if j < length xs then
        exchange_inner gt (if gt (xs ! i) (xs ! j) then xs[i := xs ! j, j := xs ! i] else xs)
          i (Suc j)
      else xs)"
  by pat_completeness auto
termination
  by (relation "measure (\<lambda>(gt, xs, i, j). length xs - j)") auto

declare exchange_inner.simps [simp del]

lemma length_exchange_inner: "length (exchange_inner gt xs i j) = length xs"
  by (induction gt xs i j rule: exchange_inner.induct) (subst exchange_inner.simps, simp)

function exchange_outer :: "('a \<Rightarrow> 'a \<Rightarrow> bool) \<Rightarrow> 'a list \<Rightarrow> nat \<Rightarrow> 'a list" where
  "exchange_outer gt xs i =
     (if i < length xs then exchange_outer gt (exchange_inner gt xs i (Suc i)) (Suc i)
      else xs)"
  by pat_completeness auto
termination
  by (relation "measure (\<lambda>(gt, xs, i). length xs - i)") (auto simp: length_exchange_inner)

declare exchange_outer.simps [simp del]

lemma length_exchange_outer: "length (exchange_outer gt xs i) = length xs"
  by (induction gt xs i rule: exchange_outer.induct)
    (subst exchange_outer.simps, simp add: length_exchange_inner)

section \<open>Constructors\<close>

lemma vec_from_is_empty:
  "0 < n \<Longrightarrow> vec_from u v sz arr n = Inr (vec_new v sz)"
  by (simp add: vec_from_def vec_new_def vec_insert_n_def word_gt_0)

text \<open>
  C1. \<open>vec_from(v, size, arr, n)\<close> is documented as building the vector of the \<open>n\<close>
  elements of \<open>arr\<close>, but it passes \<open>0\<close> as the count and \<open>n\<close> as the position to
  \<open>vec_insert_n\<close>. On a one-element source of stride 1 holding the byte 7 the result
  is the empty, unallocated vector: length 0, not 1, and no element copied.
\<close>

theorem vec_from_copies_nothing:
  "vec_from u \<lparr>ptr = [], size_v = 0, len = 0, cap = 0\<rparr> 1 [7] 1
     = Inr \<lparr>ptr = [], size_v = 1, len = 0, cap = 0\<rparr>"
  by (simp add: vec_from_def vec_new_def vec_insert_n_def)

lemma fresh_0_4: "fresh u 0 4 = [u 0, u 1, u 2, u 3]"
proof -
  have "[0..<4] = [0, 1, 2, 3::nat]"
    by (simp add: upt_rec)
  then show ?thesis
    by (simp add: fresh_def)
qed

text \<open>
  C2. \<open>vec_init(v, size, n)\<close> is documented as the vector of \<open>n\<close> zeroed elements of
  \<open>size\<close> bytes, but it calls \<open>vec_new_with(v, n, size)\<close> with the two arguments
  exchanged. For \<open>size = 4\<close> and \<open>n = 1\<close> the stride of the result is 1, not 4, and
  one byte is zeroed, not four: the bytes at offsets 1, 2 and 3 are what \<open>malloc\<close>
  left there.
\<close>

theorem vec_init_exchanges_stride_and_count:
  "vec_init u \<lparr>ptr = [], size_v = 0, len = 0, cap = 0\<rparr> 4 1
     = Inr \<lparr>ptr = [0, u 1, u 2, u 3], size_v = 1, len = 1, cap = 4\<rparr>"
  by (simp add: vec_init_def vec_new_with_def vec_new_def vec_reserve_def v_resize_def
      v_alloc_def GROWTH_FACTOR_def fresh_0_4 v_set_def memset_def mem_write_def v_at_def)

section \<open>Reserve\<close>

lemma vec_reserve_len: "len (vec_reserve u v n) = len v"
  by (simp add: vec_reserve_def v_resize_def v_realloc_def v_alloc_def)

lemma vec_reserve_size: "size_v (vec_reserve u v n) = size_v v"
  by (simp add: vec_reserve_def v_resize_def v_realloc_def v_alloc_def)

lemma vec_reserve_cap:
  "cap (vec_reserve u v n) =
     (if n \<le> cap v then cap v
      else if cap v = 0 then max n 2
      else if 2 * cap v < n then n
      else 2 * cap v)"
  by (auto simp: vec_reserve_def v_resize_def v_realloc_def v_alloc_def GROWTH_FACTOR_def
      max_def mult.commute)

lemma vec_reserve_cap_ge: "n \<le> cap (vec_reserve u v n)"
  by (auto simp: vec_reserve_cap max_def)

text \<open>
  C6. After \<open>vec_reserve(v, n)\<close> the capacity is at least \<open>n\<close> and the length is what
  it was. If \<open>n\<close> is at most the old capacity, the vector is unchanged; otherwise the
  new capacity is \<open>max(n, 2)\<close> for an unallocated vector, exactly \<open>n\<close> if \<open>n\<close> exceeds
  twice the old capacity, and twice the old capacity otherwise. Capacities are
  \<open>size_t\<close> values and \<open>2 * cap\<close> is the product the source computes.
\<close>

theorem vec_reserve_policy:
  "n \<le> cap (vec_reserve u v n) \<and>
   len (vec_reserve u v n) = len v \<and>
   (if n \<le> cap v then vec_reserve u v n = v
    else cap (vec_reserve u v n) =
           (if cap v = 0 then max n 2
            else if 2 * cap v < n then n
            else 2 * cap v))"
proof -
  have "n \<le> cap v \<Longrightarrow> vec_reserve u v n = v"
    by (auto simp: vec_reserve_def)
  then show ?thesis
    using vec_reserve_cap [of u v n] vec_reserve_cap_ge [of n u v] vec_reserve_len [of u v n]
    by auto
qed

section \<open>Moving bytes\<close>

lemma memmove_ok:
  "k \<le> length src \<Longrightarrow> off + k \<le> length b \<Longrightarrow>
   memmove b off src k = Inr (take off b @ take k src @ drop (off + k) b)"
  by (simp add: memmove_def mem_read_def mem_write_def min_def)

lemma memcpy_ok:
  "k \<le> length src \<Longrightarrow> off + k \<le> length b \<Longrightarrow>
   memcpy b off src k = Inr (take off b @ take k src @ drop (off + k) b)"
  by (simp add: memcpy_def mem_read_def mem_write_def min_def)

lemma insert_bytes:
  assumes "a \<le> l" "l + g \<le> length b" "g \<le> length e"
  defines "b2 \<equiv> take (a + g) b @ take (l - a) (drop a b) @ drop (l + g) b"
  defines "b3 \<equiv> take a b2 @ take g e @ drop (a + g) b2"
  shows "memmove b (a + g) (drop a b) (l - a) = Inr b2"
    and "memcpy b2 a e g = Inr b3"
    and "take (l + g) b3 = take a b @ take g e @ take (l - a) (drop a b)"
    and "length b3 = length b"
proof -
  show "memmove b (a + g) (drop a b) (l - a) = Inr b2"
    using assms(1-3) by (simp add: memmove_ok b2_def add_ac)
  have lb2: "length b2 = length b"
    using assms(1-3) by (auto simp: b2_def min_def)
  show "memcpy b2 a e g = Inr b3"
    using assms(1-3) lb2 by (simp add: memcpy_ok b3_def)
  show "length b3 = length b"
    using assms(1-3) lb2 by (auto simp: b3_def min_def)
  have t: "take a b2 = take a b"
    using assms(1-3) by (simp add: b2_def min_def)
  have d: "drop (a + g) b2 = take (l - a) (drop a b) @ drop (l + g) b"
    using assms(1-3) by (simp add: b2_def min_def)
  have la: "length (take a b) = a" and lg: "length (take g e) = g"
    and lm: "length (take (l - a) (drop a b)) = l - a"
    using assms(1-3) by simp_all
  have e: "l + g = a + (g + (l - a))"
    using assms(1) by simp
  have "take (l + g) b3 =
        take (a + (g + (l - a))) (take a b @ take g e @ take (l - a) (drop a b) @ drop (l + g) b)"
    by (simp only: b3_def t d e [symmetric])
  also have "\<dots> = take a b @ take g e @ take (l - a) (drop a b)"
    using la lg lm by (simp del: length_take)
  finally show "take (l + g) b3 = take a b @ take g e @ take (l - a) (drop a b)" .
qed

lemma remove_bytes:
  assumes "a + g \<le> l" "l \<le> length b"
  defines "b' \<equiv> take a b @ take (l - (a + g)) (drop (a + g) b) @ drop (l - g) b"
  shows "memmove b a (drop (a + g) b) (l - (a + g)) = Inr b'"
    and "take (l - g) b' = take a b @ take (l - (a + g)) (drop (a + g) b)"
    and "length b' = length b"
proof -
  have e: "a + (l - (a + g)) = l - g" using assms(1) by simp
  show "memmove b a (drop (a + g) b) (l - (a + g)) = Inr b'"
    using assms(1,2) by (simp add: memmove_ok b'_def e)
  have la: "length (take a b) = a" and lm: "length (take (l - (a + g)) (drop (a + g) b)) = l - (a + g)"
    using assms(1,2) by simp_all
  have "take (l - g) b' = take (a + (l - (a + g))) (take a b @ take (l - (a + g)) (drop (a + g) b) @ drop (l - g) b)"
    by (simp only: e b'_def)
  also have "\<dots> = take a b @ take (l - (a + g)) (drop (a + g) b)"
    using la lm by (simp del: length_take)
  finally show "take (l - g) b' = take a b @ take (l - (a + g)) (drop (a + g) b)" .
  show "length b' = length b"
    using assms(1,2) by (auto simp: b'_def min_def)
qed

section \<open>Growing the buffer\<close>

lemma length_fresh: "length (fresh u a b) = b - a"
  by (simp add: fresh_def)

lemma unat_mult_size:
  "unat (x :: size_t) * unat (y :: size_t) < 2 ^ 64 \<Longrightarrow> unat (x * y) = unat x * unat y"
  using unat_mult_lem [of x y] by simp

lemma unat_add_size:
  "unat (x :: size_t) + unat (y :: size_t) < 2 ^ 64 \<Longrightarrow> unat (x + y) = unat x + unat y"
  using unat_add_lem [of x y] by simp

lemma v_realloc_length:
  "length (ptr (v_realloc u v m)) = unat (m * size_v v)"
  by (auto simp: v_realloc_def length_fresh min_def)

lemma v_realloc_take:
  "j \<le> unat (m * size_v v) \<Longrightarrow> j \<le> length (ptr v) \<Longrightarrow>
   take j (ptr (v_realloc u v m)) = take j (ptr v)"
  by (simp add: v_realloc_def min_def)

lemma v_realloc_fields:
  "cap (v_realloc u v m) = m" "len (v_realloc u v m) = len v"
  "size_v (v_realloc u v m) = size_v v"
  by (simp_all add: v_realloc_def)

lemma v_alloc_length: "length (ptr (v_alloc u v m)) = unat (m * size_v v)"
  by (simp add: v_alloc_def length_fresh)

lemma v_alloc_fields:
  "cap (v_alloc u v m) = m" "len (v_alloc u v m) = len v" "size_v (v_alloc u v m) = size_v v"
  by (simp_all add: v_alloc_def)

lemma PTRDIFF_MAX_twice: "x \<le> PTRDIFF_MAX \<Longrightarrow> y \<le> PTRDIFF_MAX \<Longrightarrow> x + y < 2 ^ 64"
  by (simp add: PTRDIFF_MAX_def)

text \<open>What vec_reserve leaves: a buffer valid for the new capacity, old bytes kept.\<close>

lemma vec_reserve_buffer:
  assumes ok: "vec_ok v" and m: "unat m * unat (size_v v) < 2 ^ 64"
  shows "unat (cap (vec_reserve u v m)) * unat (size_v v) < 2 ^ 64"
    and "unat (cap (vec_reserve u v m)) * unat (size_v v) \<le> length (ptr (vec_reserve u v m))"
    and "j \<le> unat (cap v) * unat (size_v v) \<Longrightarrow>
         take j (ptr (vec_reserve u v m)) = take j (ptr v)"
proof -
  let ?s = "unat (size_v v)" and ?C = "unat (cap v)"
  have s: "?s \<le> PTRDIFF_MAX" and C: "?C * ?s \<le> PTRDIFF_MAX" and B: "?C * ?s \<le> length (ptr v)"
    using ok by (simp_all add: vec_ok_def)
  have s1: "1 \<le> ?s"
    using ok by (simp add: vec_ok_def word_less_nat_alt)
  have two_s: "unat (2 * size_v v) = 2 * ?s"
    using unat_mult_size [of 2 "size_v v"] s by (simp add: PTRDIFF_MAX_def)
  have "?C * 1 \<le> ?C * ?s" using s1 by (rule mult_le_mono2)
  then have "?C \<le> PTRDIFF_MAX" using C by linarith
  then have C2: "2 * ?C < 2 ^ 64" by (simp add: PTRDIFF_MAX_def)
  have two_C: "unat (2 * cap v) = 2 * ?C"
    using unat_mult_size [of 2 "cap v"] C2 by simp
  have two_Cs: "unat (2 * cap v * size_v v) = 2 * ?C * ?s"
    using unat_mult_size [of "2 * cap v" "size_v v"] two_C C by (simp add: PTRDIFF_MAX_def)
  have ms: "unat (m * size_v v) = unat m * ?s"
    using unat_mult_size [OF m] .
  consider (keep) "m \<le> cap v"
    | (alloc) "\<not> m \<le> cap v" "cap v = 0" "2 < m"
    | (alloc2) "\<not> m \<le> cap v" "cap v = 0" "\<not> 2 < m"
    | (exact) "\<not> m \<le> cap v" "cap v \<noteq> 0" "2 * cap v < m"
    | (double) "\<not> m \<le> cap v" "cap v \<noteq> 0" "\<not> 2 * cap v < m"
    by blast
  then have
    "unat (cap (vec_reserve u v m)) * ?s < 2 ^ 64 \<and>
     unat (cap (vec_reserve u v m)) * ?s \<le> length (ptr (vec_reserve u v m)) \<and>
     (j \<le> ?C * ?s \<longrightarrow> take j (ptr (vec_reserve u v m)) = take j (ptr v))"
  proof cases
    case keep
    then have "vec_reserve u v m = v" by (auto simp: vec_reserve_def)
    then show ?thesis using C B by (simp add: PTRDIFF_MAX_def)
  next
    case alloc
    then have e: "vec_reserve u v m = v_alloc u v m"
      by (auto simp: vec_reserve_def v_resize_def GROWTH_FACTOR_def word_gt_0)
    show ?thesis using alloc m ms by (simp add: e v_alloc_fields v_alloc_length)
  next
    case alloc2
    then have e: "vec_reserve u v m = v_alloc u v 2"
      by (auto simp: vec_reserve_def v_resize_def GROWTH_FACTOR_def word_gt_0)
    show ?thesis using alloc2 two_s s
      by (simp add: e v_alloc_fields v_alloc_length PTRDIFF_MAX_def)
  next
    case exact
    then have e: "vec_reserve u v m = v_realloc u v m"
      by (auto simp: vec_reserve_def v_resize_def GROWTH_FACTOR_def mult.commute word_gt_0)
    have "?C \<le> unat m" using exact(1) by (simp add: word_le_nat_alt)
    then have le: "?C * ?s \<le> unat m * ?s" by (rule mult_le_mono1)
    have "j \<le> ?C * ?s \<Longrightarrow> take j (ptr (v_realloc u v m)) = take j (ptr v)"
      by (rule v_realloc_take) (use le ms B in linarith)+
    then show ?thesis using m ms
      by (simp add: e v_realloc_fields v_realloc_length)
  next
    case double
    then have e: "vec_reserve u v m = v_realloc u v (2 * cap v)"
      by (auto simp: vec_reserve_def v_resize_def GROWTH_FACTOR_def mult.commute word_gt_0)
    have "j \<le> ?C * ?s \<Longrightarrow> take j (ptr (v_realloc u v (2 * cap v))) = take j (ptr v)"
      by (rule v_realloc_take) (use two_Cs B in linarith)+
    moreover have "2 * ?C * ?s < 2 ^ 64"
      using C by (simp add: PTRDIFF_MAX_def)
    ultimately show ?thesis using two_C two_Cs
      by (simp add: e v_realloc_fields v_realloc_length)
  qed
  then show "unat (cap (vec_reserve u v m)) * unat (size_v v) < 2 ^ 64"
    and "unat (cap (vec_reserve u v m)) * unat (size_v v) \<le> length (ptr (vec_reserve u v m))"
    and "j \<le> unat (cap v) * unat (size_v v) \<Longrightarrow>
         take j (ptr (vec_reserve u v m)) = take j (ptr v)"
    by simp_all
qed

text \<open>
  Read on the natural numbers, the growth policy of \<open>vec_reserve\<close> (C6) is the same
  as long as twice the old capacity is representable.
\<close>

lemma vec_reserve_policy_nat:
  assumes "unat (cap v) < 2 ^ 63"
  shows "unat (cap (vec_reserve u v n)) =
           (if unat n \<le> unat (cap v) then unat (cap v)
            else if unat (cap v) = 0 then max (unat n) 2
            else if 2 * unat (cap v) < unat n then unat n
            else 2 * unat (cap v))"
proof -
  have two: "unat (2 * cap v) = 2 * unat (cap v)"
    using unat_mult_size [of 2 "cap v"] assms by simp
  have m: "unat (max n 2) = max (unat n) 2"
    by (simp add: max_def word_le_nat_alt)
  show ?thesis
    by (simp add: vec_reserve_cap word_le_nat_alt word_less_nat_alt two m unat_eq_0)
qed

section \<open>Insertion and removal\<close>

lemma le_mult_pos: "1 \<le> (s::nat) \<Longrightarrow> x \<le> x * s"
  by (cases s) simp_all

lemma vec_insert_n_spec:
  assumes ok: "vec_ok v" and pos: "pos \<le> len v"
    and src: "unat n * unat (size_v v) \<le> PTRDIFF_MAX"
             "unat n * unat (size_v v) \<le> length elems"
  shows "\<exists>v'. vec_insert_n u v elems n pos = Inr v' \<and>
           len v' = len v + n \<and> unat (len v') = unat (len v) + unat n \<and>
           size_v v' = size_v v \<and> cap v' = cap (vec_reserve u v (len v + n)) \<and>
           len v' \<le> cap v' \<and>
           unat (cap v') * unat (size_v v') < 2 ^ 64 \<and>
           unat (cap v') * unat (size_v v') \<le> length (ptr v') \<and>
           contents v' =
             take (unat pos * unat (size_v v)) (contents v)
             @ take (unat n * unat (size_v v)) elems
             @ drop (unat pos * unat (size_v v)) (contents v)"
proof -
  let ?s = "unat (size_v v)" and ?C = "unat (cap v)" and ?L = "unat (len v)"
  let ?P = "unat pos" and ?N = "unat n"
  define v1 where "v1 = vec_reserve u v (len v + n)"
  define b where "b = ptr v1"
  have s1: "1 \<le> ?s"
    using ok by (simp add: vec_ok_def word_less_nat_alt)
  have LC: "?L \<le> ?C"
    using ok by (simp add: vec_ok_def word_le_nat_alt)
  have PL: "?P \<le> ?L"
    using pos by (simp add: word_le_nat_alt)
  have C: "?C * ?s \<le> PTRDIFF_MAX" and B: "?C * ?s \<le> length (ptr v)"
    using ok by (simp_all add: vec_ok_def)
  have Ls: "?L * ?s \<le> ?C * ?s"
    using LC by (rule mult_le_mono1)
  have tot: "(?L + ?N) * ?s < 2 ^ 64"
    using PTRDIFF_MAX_twice [of "?L * ?s" "?N * ?s"] Ls C src(1) by (simp add: add_mult_distrib)
  have LN: "?L + ?N < 2 ^ 64"
    using le_mult_pos [OF s1, of "?L + ?N"] tot by linarith
  have uLN: "unat (len v + n) = ?L + ?N"
    using LN by (rule unat_add_size)
  have uPN: "unat (pos + n) = ?P + ?N"
    using LN PL by (intro unat_add_size) linarith
  have uLP: "unat (len v - pos) = ?L - ?P"
    using pos by (rule unat_sub)
  have m: "unat (len v + n) * ?s < 2 ^ 64"
    using tot by (simp only: uLN)
  have f1: "len v1 = len v" "size_v v1 = size_v v"
    by (simp_all add: v1_def vec_reserve_len vec_reserve_size)
  have c1: "unat (cap v1) * ?s < 2 ^ 64" and b1: "unat (cap v1) * ?s \<le> length b"
    and t1: "take (?L * ?s) b = take (?L * ?s) (ptr v)"
    using vec_reserve_buffer(1) [OF ok m, of u] vec_reserve_buffer(2) [OF ok m, of u]
      vec_reserve_buffer(3) [OF ok m Ls, of u]
    by (simp_all add: v1_def b_def)
  have "len v + n \<le> cap v1"
    by (simp add: v1_def vec_reserve_cap_ge)
  then have capge: "?L + ?N \<le> unat (cap v1)"
    using uLN by (simp add: word_le_nat_alt)
  then have "(?L + ?N) * ?s \<le> unat (cap v1) * ?s"
    by (rule mult_le_mono1)
  then have fit: "?L * ?s + ?N * ?s \<le> length b"
    using b1 by (simp add: add_mult_distrib)
  have o1: "unat ((pos + n) * size_v v) = ?P * ?s + ?N * ?s"
  proof -
    have "(?P + ?N) * ?s \<le> (?L + ?N) * ?s"
      using PL by (intro mult_le_mono1) simp
    then have "(?P + ?N) * ?s < 2 ^ 64" using tot by (rule le_less_trans)
    then have "unat (pos + n) * ?s < 2 ^ 64" by (simp only: uPN)
    then have "unat ((pos + n) * size_v v) = unat (pos + n) * ?s" by (rule unat_mult_size)
    then show ?thesis by (simp only: uPN add_mult_distrib)
  qed
  have Pss: "?P * ?s \<le> ?L * ?s"
    using PL by (rule mult_le_mono1)
  have Lss: "?L * ?s < 2 ^ 64" and Nss: "?N * ?s < 2 ^ 64"
    using tot unfolding add_mult_distrib by linarith+
  have o2: "unat (pos * size_v v) = ?P * ?s"
    by (rule unat_mult_size) (use Pss Lss in \<open>rule le_less_trans\<close>)
  have o3: "unat ((len v - pos) * size_v v) = ?L * ?s - ?P * ?s"
  proof -
    have "(?L - ?P) * ?s \<le> ?L * ?s" by (intro mult_le_mono1) simp
    then have "(?L - ?P) * ?s < 2 ^ 64" using Lss by (rule le_less_trans)
    then have "unat (len v - pos) * ?s < 2 ^ 64" by (simp only: uLP)
    then have "unat ((len v - pos) * size_v v) = unat (len v - pos) * ?s" by (rule unat_mult_size)
    then show ?thesis by (simp only: uLP diff_mult_distrib)
  qed
  have o4: "unat (n * size_v v) = ?N * ?s"
    using Nss by (rule unat_mult_size)
  define b2 where "b2 = take (?P * ?s + ?N * ?s) b
     @ take (?L * ?s - ?P * ?s) (drop (?P * ?s) b) @ drop (?L * ?s + ?N * ?s) b"
  define b3 where "b3 = take (?P * ?s) b2 @ take (?N * ?s) elems @ drop (?P * ?s + ?N * ?s) b2"
  note ib = insert_bytes [OF Pss fit src(2), folded b2_def b3_def]
  have mv: "v_move v1 (pos + n) (v_at_ptr v1 pos) (len v1 - pos) = Inr (v1\<lparr>ptr := b2\<rparr>)"
    using ib(1) by (simp add: v_move_def v_at_def v_at_ptr_def f1 o1 o2 o3 b_def)
  have cp: "v_cpy (v1\<lparr>ptr := b2\<rparr>) pos elems n = Inr (v1\<lparr>ptr := b3\<rparr>)"
    using ib(2) by (simp add: v_cpy_def v_at_def f1 o2 o4)
  define v' where "v' = v1\<lparr>ptr := b3, len := len v + n\<rparr>"
  have res: "vec_insert_n u v elems n pos = Inr v'"
    using pos mv cp by (simp add: vec_insert_n_def v1_def [symmetric] v'_def f1)
  have cv: "contents v = take (?L * ?s) b"
    by (simp add: contents_def t1)
  have "contents v' = take (?L * ?s + ?N * ?s) b3"
    by (simp add: contents_def v'_def uLN f1 add_mult_distrib)
  also have "\<dots> = take (?P * ?s) b @ take (?N * ?s) elems
                     @ take (?L * ?s - ?P * ?s) (drop (?P * ?s) b)"
    by (rule ib(3))
  also have "\<dots> = take (?P * ?s) (contents v) @ take (?N * ?s) elems
                     @ drop (?P * ?s) (contents v)"
    using Pss by (simp add: cv drop_take min_def)
  finally have cont: "contents v' = take (?P * ?s) (contents v) @ take (?N * ?s) elems
                     @ drop (?P * ?s) (contents v)" .
  have "len v' = len v + n" "unat (len v') = ?L + ?N" "size_v v' = size_v v"
    "cap v' = cap (vec_reserve u v (len v + n))" "len v' \<le> cap v'"
    "unat (cap v') * unat (size_v v') < 2 ^ 64"
    "unat (cap v') * unat (size_v v') \<le> length (ptr v')"
    using uLN f1 c1 b1 ib(4) \<open>len v + n \<le> cap v1\<close>
    by (simp_all add: v'_def v1_def [symmetric] b_def)
  with res cont show ?thesis by blast
qed

lemma vec_remove_n_spec:
  assumes buf: "unat (len v) * unat (size_v v) \<le> length (ptr v)"
               "unat (len v) * unat (size_v v) < 2 ^ 64"
    and range: "unat pos + unat n \<le> unat (len v)" and n: "1 \<le> n"
    and out: "case out of None \<Rightarrow> True | Some d \<Rightarrow> unat n * unat (size_v v) \<le> length d"
  shows "\<exists>v'. vec_remove_n v pos out n =
             Inr (v', map_option (\<lambda>d. take (unat n * unat (size_v v))
                                       (drop (unat pos * unat (size_v v)) (contents v))
                                     @ drop (unat n * unat (size_v v)) d) out) \<and>
           len v' = len v - n \<and> unat (len v') = unat (len v) - unat n \<and>
           size_v v' = size_v v \<and> cap v' = cap v \<and>
           length (ptr v') = length (ptr v) \<and>
           contents v' =
             take (unat pos * unat (size_v v)) (contents v)
             @ drop ((unat pos + unat n) * unat (size_v v)) (contents v)"
proof -
  let ?s = "unat (size_v v)" and ?L = "unat (len v)" and ?P = "unat pos" and ?N = "unat n"
  let ?b = "ptr v"
  let ?a = "?P * ?s" and ?g = "?N * ?s" and ?l = "?L * ?s"
  have L64: "?L < 2 ^ 64"
    using unsigned_less [of "len v", where 'a = nat] by simp
  have PN: "?P + ?N < 2 ^ 64"
    using range L64 by linarith
  have uPN: "unat (pos + n) = ?P + ?N"
    using PN by (rule unat_add_size)
  have N1: "1 \<le> ?N"
    using n by (simp add: word_le_nat_alt)
  have "1 \<le> pos + n"
    using uPN N1 by (simp add: word_le_nat_alt)
  then have uPN1: "unat (pos + n - 1) = ?P + ?N - 1"
    using uPN by (simp add: unat_sub)
  have guard: "pos + n - 1 < len v"
    using uPN1 range N1 by (simp add: word_less_nat_alt)
  have nle: "n \<le> len v" and pnle: "pos + n \<le> len v"
    using range uPN by (simp_all add: word_le_nat_alt)
  have uLN: "unat (len v - n) = ?L - ?N"
    using nle by (rule unat_sub)
  have uLPN: "unat (len v - (pos + n)) = ?L - (?P + ?N)"
    using pnle uPN by (simp add: unat_sub)
  have agl: "?a + ?g \<le> ?l"
    using range mult_le_mono1 [of "?P + ?N" ?L ?s] by (simp add: add_mult_distrib)
  have o1: "unat (pos * size_v v) = ?a"
    by (rule unat_mult_size) (use agl buf(2) in linarith)
  have o2: "unat (n * size_v v) = ?g"
    by (rule unat_mult_size) (use agl buf(2) in linarith)
  have o3: "unat ((pos + n) * size_v v) = ?a + ?g"
  proof -
    have "unat (pos + n) * ?s < 2 ^ 64"
      using agl buf(2) unfolding uPN add_mult_distrib by linarith
    then have "unat ((pos + n) * size_v v) = unat (pos + n) * ?s" by (rule unat_mult_size)
    then show ?thesis by (simp only: uPN add_mult_distrib)
  qed
  have o4: "unat ((len v - (pos + n)) * size_v v) = ?l - (?a + ?g)"
  proof -
    have "(?L - (?P + ?N)) * ?s \<le> ?l" by (intro mult_le_mono1) simp
    then have "(?L - (?P + ?N)) * ?s < 2 ^ 64" using buf(2) by (rule le_less_trans)
    then have "unat (len v - (pos + n)) * ?s < 2 ^ 64" by (simp only: uLPN)
    then have "unat ((len v - (pos + n)) * size_v v) = unat (len v - (pos + n)) * ?s"
      by (rule unat_mult_size)
    then show ?thesis by (simp only: uLPN diff_mult_distrib add_mult_distrib)
  qed
  have cv: "contents v = take ?l ?b"
    by (simp add: contents_def)
  have seg: "take ?g (drop ?a (contents v)) = take ?g (drop ?a ?b)"
    using agl by (simp add: cv drop_take min_def)
  \<comment> \<open>the copy to the output buffer\<close>
  have cpy: "\<And>d. ?g \<le> length d \<Longrightarrow>
               v_cpy_to d v pos n = Inr (take ?g (drop ?a (contents v)) @ drop ?g d)"
  proof -
    fix d :: "byte list" assume d: "?g \<le> length d"
    have "?g \<le> length (drop ?a ?b)"
      using agl buf(1) by simp
    then have "memcpy d 0 (drop ?a ?b) ?g = Inr (take 0 d @ take ?g (drop ?a ?b) @ drop (0 + ?g) d)"
      using d by (intro memcpy_ok) simp_all
    then show "v_cpy_to d v pos n = Inr (take ?g (drop ?a (contents v)) @ drop ?g d)"
      by (simp add: v_cpy_to_def v_at_ptr_def v_at_def o1 o2 seg)
  qed
  define out' where "out' = map_option (\<lambda>d. take ?g (drop ?a (contents v)) @ drop ?g d) out"
  have outc: "(case out of None \<Rightarrow> Inr None
               | Some d \<Rightarrow> (case v_cpy_to d v pos n of Inl e \<Rightarrow> Inl e | Inr d' \<Rightarrow> Inr (Some d')))
              = Inr out'"
    using out cpy by (cases out) (simp_all add: out'_def)
  \<comment> \<open>closing the gap\<close>
  define b' where "b' = take ?a ?b @ take (?l - (?a + ?g)) (drop (?a + ?g) ?b) @ drop (?l - ?g) ?b"
  note rb = remove_bytes [OF agl buf(1), folded b'_def]
  define v1 where "v1 = (if pos + n < len v then v\<lparr>ptr := b'\<rparr> else v)"
  have mv: "(if pos + n < len v
             then v_move v pos (v_at_ptr v (pos + n)) (len v - (pos + n)) else Inr v) = Inr v1"
    using rb(1) by (simp add: v1_def v_move_def v_at_def v_at_ptr_def o1 o3 o4)
  have res: "vec_remove_n v pos out n = Inr (v1\<lparr>len := len v1 - n\<rparr>, out')"
    using guard by (simp add: vec_remove_n_def outc mv)
  have f: "len v1 = len v" "size_v v1 = size_v v" "cap v1 = cap v"
    "length (ptr v1) = length ?b"
    using rb(3) by (simp_all add: v1_def)
  have lg: "(?L - ?N) * ?s = ?l - ?g"
    by (simp add: diff_mult_distrib)
  have tk: "take (?l - ?g) (ptr v1) = take ?a ?b @ take (?l - (?a + ?g)) (drop (?a + ?g) ?b)"
  proof (cases "pos + n < len v")
    case True
    then show ?thesis using rb(2) by (simp add: v1_def)
  next
    case False
    then have "?P + ?N = ?L"
      using range uPN by (simp add: word_less_nat_alt)
    then have "?a + ?g = ?l" by (simp add: add_mult_distrib [symmetric])
    then have "?l - ?g = ?a" "?l - (?a + ?g) = 0" by simp_all
    then show ?thesis using False by (simp add: v1_def)
  qed
  have "contents (v1\<lparr>len := len v1 - n\<rparr>) = take (?l - ?g) (ptr v1)"
    by (simp add: contents_def f uLN lg)
  also have "\<dots> = take ?a (contents v) @ drop ((?P + ?N) * ?s) (contents v)"
  proof -
    have m1: "min ?a ?l = ?a"
      by (rule min_absorb1) (use agl in linarith)
    have t: "take ?a (contents v) = take ?a ?b"
      by (simp only: cv take_take m1)
    have d: "drop (?a + ?g) (contents v) = take (?l - (?a + ?g)) (drop (?a + ?g) ?b)"
      by (simp only: cv drop_take)
    show ?thesis
      by (simp only: tk t d add_mult_distrib)
  qed
  finally have cont: "contents (v1\<lparr>len := len v1 - n\<rparr>) =
      take ?a (contents v) @ drop ((?P + ?N) * ?s) (contents v)" .
  show ?thesis
    using res cont f uLN by (intro exI [of _ "v1\<lparr>len := len v1 - n\<rparr>"]) (simp add: out'_def)
qed

lemma length_contents:
  "unat (len v) * unat (size_v v) \<le> length (ptr v) \<Longrightarrow>
   length (contents v) = unat (len v) * unat (size_v v)"
  by (simp add: contents_def)

lemma elem_at_contents:
  assumes "i < unat (len v)"
  shows "elem_at v i = take (unat (size_v v)) (drop (i * unat (size_v v)) (contents v))"
proof -
  let ?s = "unat (size_v v)"
  have "Suc i * ?s \<le> unat (len v) * ?s"
    using assms by (intro mult_le_mono1) simp
  then have "min ?s (unat (len v) * ?s - i * ?s) = ?s"
    by simp
  then show ?thesis
    by (simp add: elem_at_def contents_def drop_take)
qed

lemma elems_of_contents:
  "elems_of v =
     map (\<lambda>i. take (unat (size_v v)) (drop (i * unat (size_v v)) (contents v)))
       [0..<unat (len v)]"
  by (simp add: elems_of_def elem_at_contents)

lemma elems_of_cong:
  "contents v' = contents v \<Longrightarrow> len v' = len v \<Longrightarrow> size_v v' = size_v v \<Longrightarrow>
   elems_of v' = elems_of v"
  by (simp add: elems_of_contents)

text \<open>
  C7. Let \<open>v\<close> be a valid vector, \<open>pos \<le> len\<close>, \<open>n \<ge> 1\<close>, \<open>elems\<close> a caller-owned buffer
  holding \<open>n\<close> elements and \<open>out\<close> a caller-owned buffer with room for \<open>n\<close> elements.
  Then \<open>vec_insert_n(v, elems, n, pos)\<close> followed by \<open>vec_remove_n(v, pos, out, n)\<close>
  both run without leaving a buffer, the length and the element sequence of the
  vector are what they were before the insertion, and \<open>out\<close> holds the \<open>n\<close> inserted
  elements.
\<close>

theorem insert_then_remove_restores:
  assumes ok: "vec_ok v" and pos: "pos \<le> len v" and n: "1 \<le> n"
    and src: "unat n * unat (size_v v) \<le> PTRDIFF_MAX"
             "unat n * unat (size_v v) \<le> length elems"
    and out: "unat n * unat (size_v v) \<le> length out"
  shows "\<exists>v1 v2 out'.
           vec_insert_n u v elems n pos = Inr v1 \<and>
           vec_remove_n v1 pos (Some out) n = Inr (v2, Some out') \<and>
           len v1 = len v + n \<and>
           len v2 = len v \<and> size_v v2 = size_v v \<and>
           contents v2 = contents v \<and> elems_of v2 = elems_of v \<and>
           take (unat n * unat (size_v v)) out' = take (unat n * unat (size_v v)) elems"
proof -
  let ?s = "unat (size_v v)" and ?L = "unat (len v)" and ?P = "unat pos" and ?N = "unat n"
  from vec_insert_n_spec [OF ok pos src, of u] obtain v1 where
    ins: "vec_insert_n u v elems n pos = Inr v1"
    and l1: "len v1 = len v + n" "unat (len v1) = ?L + ?N"
    and s1: "size_v v1 = size_v v"
    and c1: "len v1 \<le> cap v1" "unat (cap v1) * unat (size_v v1) < 2 ^ 64"
            "unat (cap v1) * unat (size_v v1) \<le> length (ptr v1)"
    and cont1: "contents v1 = take (?P * ?s) (contents v) @ take (?N * ?s) elems
                              @ drop (?P * ?s) (contents v)"
    by blast
  have PL: "?P \<le> ?L"
    using pos by (simp add: word_le_nat_alt)
  have "?L \<le> unat (cap v)" "unat (cap v) * ?s \<le> length (ptr v)"
    using ok by (simp_all add: vec_ok_def word_le_nat_alt)
  then have Lb: "?L * ?s \<le> length (ptr v)"
    using mult_le_mono1 [of ?L "unat (cap v)" ?s] by linarith
  have lc: "length (contents v) = ?L * ?s"
    using Lb by (rule length_contents)
  have "unat (len v1) \<le> unat (cap v1)"
    using c1(1) by (simp add: word_le_nat_alt)
  then have le1: "unat (len v1) * unat (size_v v1) \<le> unat (cap v1) * unat (size_v v1)"
    by (rule mult_le_mono1)
  have b1: "unat (len v1) * unat (size_v v1) \<le> length (ptr v1)"
    using le1 c1(3) by linarith
  have b2: "unat (len v1) * unat (size_v v1) < 2 ^ 64"
    using le1 c1(2) by linarith
  have r1: "unat pos + unat n \<le> unat (len v1)"
    using PL l1(2) by simp
  have o1: "case Some out of None \<Rightarrow> True | Some d \<Rightarrow> unat n * unat (size_v v1) \<le> length d"
    using out by (simp add: s1)
  from vec_remove_n_spec [OF b1 b2 r1 n o1] obtain v2 where
    rem: "vec_remove_n v1 pos (Some out) n =
            Inr (v2, Some (take (?N * ?s) (drop (?P * ?s) (contents v1)) @ drop (?N * ?s) out))"
    and l2: "len v2 = len v1 - n"
    and s2: "size_v v2 = size_v v1"
    and cont2: "contents v2 = take (?P * ?s) (contents v1)
                              @ drop ((?P + ?N) * ?s) (contents v1)"
    by (auto simp: s1)
  have Ps: "?P * ?s \<le> ?L * ?s"
    using PL by (rule mult_le_mono1)
  have la: "length (take (?P * ?s) (contents v)) = ?P * ?s"
    using Ps lc by simp
  have lg: "length (take (?N * ?s) elems) = ?N * ?s"
    using src(2) by simp
  have seg: "take (?N * ?s) (drop (?P * ?s) (contents v1)) = take (?N * ?s) elems"
    using la lg by (simp add: cont1 del: length_take)
  have e: "(?P + ?N) * ?s = ?P * ?s + ?N * ?s"
    by (simp add: add_mult_distrib)
  have restored: "contents v2 = contents v"
    using la lg by (simp add: cont2 cont1 e del: length_take)
  have len2: "len v2 = len v"
    by (simp add: l2 l1)
  have sz2: "size_v v2 = size_v v"
    by (simp add: s2 s1)
  have "take (?N * ?s) (take (?N * ?s) (drop (?P * ?s) (contents v1)) @ drop (?N * ?s) out)
          = take (?N * ?s) elems"
    using lg by (simp add: seg del: length_take)
  then show ?thesis
    using ins rem l1(1) len2 sz2 restored elems_of_cong [OF restored len2 sz2] by blast
qed

theorem insert_then_remove_restores_witness:
  "vec_ok \<lparr>ptr = [1, 2, 3, 4], size_v = 2, len = 1, cap = 2\<rparr> \<and>
   (\<exists>v1 v2 out'.
      vec_insert_n (\<lambda>_. 0) \<lparr>ptr = [1, 2, 3, 4], size_v = 2, len = 1, cap = 2\<rparr> [8, 9] 1 0
        = Inr v1 \<and>
      vec_remove_n v1 0 (Some [0, 0]) 1 = Inr (v2, Some out') \<and>
      len v1 = 2 \<and> len v2 = 1 \<and> size_v v2 = 2 \<and>
      contents v2 = [1, 2] \<and> elems_of v2 = [[1, 2]] \<and> take 2 out' = [8, 9])"
proof -
  let ?v = "\<lparr>ptr = [1, 2, 3, 4], size_v = 2, len = 1, cap = 2\<rparr>"
  have ok: "vec_ok ?v"
    by (simp add: vec_ok_def PTRDIFF_MAX_def)
  have c: "contents ?v = [1, 2]" "elems_of ?v = [[1, 2]]"
    by (simp_all add: contents_def elems_of_def elem_at_def)
  show ?thesis
    using ok c insert_then_remove_restores [of ?v 0 1 "[8, 9]" "[0, 0]" "\<lambda>_. 0"]
    by (simp add: PTRDIFF_MAX_def)
qed

section \<open>Push and pop\<close>

lemma vec_pop_spec:
  assumes l: "len v \<noteq> 0"
    and buf: "unat (len v) * unat (size_v v) \<le> length (ptr v)"
             "unat (len v) * unat (size_v v) < 2 ^ 64"
    and out: "unat (size_v v) \<le> length d"
  shows "vec_pop v (Some d) =
           Inr (v\<lparr>len := len v - 1\<rparr>,
                Some (take (unat (size_v v))
                        (drop ((unat (len v) - 1) * unat (size_v v)) (contents v))
                      @ drop (unat (size_v v)) d))"
    and "contents (v\<lparr>len := len v - 1\<rparr>)
           = take ((unat (len v) - 1) * unat (size_v v)) (contents v)"
proof -
  let ?s = "unat (size_v v)" and ?L = "unat (len v)"
  have L1: "1 \<le> ?L"
    using l by (simp add: unat_gt_0 Suc_le_eq)
  have "1 \<le> len v"
    using L1 by (simp add: word_le_nat_alt)
  then have uL1: "unat (len v - 1) = ?L - 1"
    by (simp add: unat_sub)
  have le: "(?L - 1) * ?s + ?s \<le> ?L * ?s"
    using L1 by (simp add: diff_mult_distrib)
  have "unat (len v - 1) * ?s < 2 ^ 64"
    using le buf(2) unfolding uL1 by linarith
  then have "unat ((len v - 1) * size_v v) = unat (len v - 1) * ?s"
    by (rule unat_mult_size)
  then have o1: "unat ((len v - 1) * size_v v) = (?L - 1) * ?s"
    by (simp only: uL1)
  have "?s \<le> length (drop ((?L - 1) * ?s) (ptr v))"
    using le buf(1) by simp
  then have "memcpy d 0 (drop ((?L - 1) * ?s) (ptr v)) ?s
      = Inr (take 0 d @ take ?s (drop ((?L - 1) * ?s) (ptr v)) @ drop (0 + ?s) d)"
    using out by (intro memcpy_ok) simp_all
  moreover have "take ?s (drop ((?L - 1) * ?s) (contents v))
      = take ?s (drop ((?L - 1) * ?s) (ptr v))"
    using le by (simp add: contents_def drop_take min_def)
  ultimately have "v_cpy_to d v (len v - 1) 1
      = Inr (take ?s (drop ((?L - 1) * ?s) (contents v)) @ drop ?s d)"
    by (simp add: v_cpy_to_def v_at_ptr_def v_at_def o1)
  then show "vec_pop v (Some d) =
           Inr (v\<lparr>len := len v - 1\<rparr>,
                Some (take ?s (drop ((?L - 1) * ?s) (contents v)) @ drop ?s d))"
    using l by (simp add: vec_pop_def)
  have "min ((?L - 1) * ?s) (?L * ?s) = (?L - 1) * ?s"
    by (rule min_absorb1) (use le in linarith)
  then show "contents (v\<lparr>len := len v - 1\<rparr>) = take ((?L - 1) * ?s) (contents v)"
    by (simp add: contents_def uL1)
qed

text \<open>
  C8. Let \<open>v\<close> be a valid vector, \<open>elem\<close> a caller-owned element and \<open>out\<close> a
  caller-owned buffer with room for one element. Then \<open>vec_push(v, elem)\<close> followed by
  \<open>vec_pop(v, out)\<close> both run without leaving a buffer, \<open>out\<close> holds the bytes of
  \<open>elem\<close>, and the length and the elements of the vector are what they were before
  the push.
\<close>

theorem push_then_pop:
  assumes ok: "vec_ok v"
    and elem: "unat (size_v v) \<le> length elem"
    and out: "unat (size_v v) \<le> length out"
  shows "\<exists>v1 v2 out'.
           vec_push u v elem = Inr v1 \<and>
           vec_pop v1 (Some out) = Inr (v2, Some out') \<and>
           take (unat (size_v v)) out' = take (unat (size_v v)) elem \<and>
           vec_len v1 = vec_len v + 1 \<and>
           vec_len v2 = vec_len v \<and> size_v v2 = size_v v \<and>
           contents v2 = contents v \<and> elems_of v2 = elems_of v"
proof -
  let ?s = "unat (size_v v)" and ?L = "unat (len v)"
  have src: "unat (1 :: size_t) * ?s \<le> PTRDIFF_MAX" "unat (1 :: size_t) * ?s \<le> length elem"
    using ok elem by (simp_all add: vec_ok_def)
  from vec_insert_n_spec [OF ok order_refl src, of u] obtain v1 where
    ins: "vec_insert_n u v elem 1 (len v) = Inr v1"
    and l1: "len v1 = len v + 1" "unat (len v1) = ?L + 1"
    and s1: "size_v v1 = size_v v"
    and c1: "len v1 \<le> cap v1" "unat (cap v1) * unat (size_v v1) < 2 ^ 64"
            "unat (cap v1) * unat (size_v v1) \<le> length (ptr v1)"
    and cont1: "contents v1 = take (?L * ?s) (contents v) @ take (1 * ?s) elem
                              @ drop (?L * ?s) (contents v)"
    by auto
  have "?L \<le> unat (cap v)" "unat (cap v) * ?s \<le> length (ptr v)"
    using ok by (simp_all add: vec_ok_def word_le_nat_alt)
  then have Lb: "?L * ?s \<le> length (ptr v)"
    using mult_le_mono1 [of ?L "unat (cap v)" ?s] by linarith
  have lc: "length (contents v) = ?L * ?s"
    using Lb by (rule length_contents)
  have cont1': "contents v1 = contents v @ take ?s elem"
    using lc by (simp add: cont1)
  have "unat (len v1) \<le> unat (cap v1)"
    using c1(1) by (simp add: word_le_nat_alt)
  then have le1: "unat (len v1) * unat (size_v v1) \<le> unat (cap v1) * unat (size_v v1)"
    by (rule mult_le_mono1)
  have b1: "unat (len v1) * unat (size_v v1) \<le> length (ptr v1)"
    using le1 c1(3) by linarith
  have b2: "unat (len v1) * unat (size_v v1) < 2 ^ 64"
    using le1 c1(2) by linarith
  have nz: "len v1 \<noteq> 0"
    using l1(2) by (auto simp: unat_eq_0 [symmetric])
  have o1: "unat (size_v v1) \<le> length out"
    using out by (simp add: s1)
  note pp = vec_pop_spec [OF nz b1 b2 o1]
  define v2 where "v2 = v1\<lparr>len := len v1 - 1\<rparr>"
  define out' where "out' = take ?s (drop (?L * ?s) (contents v1)) @ drop ?s out"
  have e1: "unat (len v1) - 1 = ?L"
    using l1(2) by simp
  have pop: "vec_pop v1 (Some out) = Inr (v2, Some out')"
    using pp(1) unfolding e1 s1 by (simp add: v2_def out'_def)
  have restored: "contents v2 = contents v"
    using pp(2) lc unfolding e1 s1 by (simp add: v2_def cont1')
  have "take ?s out' = take ?s elem"
    using lc elem by (simp add: out'_def cont1')
  moreover have len2: "len v2 = len v" and sz2: "size_v v2 = size_v v"
    by (simp_all add: v2_def l1 s1)
  ultimately show ?thesis
    using ins pop restored l1(1) elems_of_cong [OF restored len2 sz2]
    by (simp add: vec_push_def vec_insert_def vec_len_def)
qed

theorem push_then_pop_witness:
  "vec_ok \<lparr>ptr = [1, 2], size_v = 2, len = 1, cap = 1\<rparr> \<and>
   (\<exists>v1 v2 out'.
      vec_push (\<lambda>_. 0) \<lparr>ptr = [1, 2], size_v = 2, len = 1, cap = 1\<rparr> [8, 9] = Inr v1 \<and>
      vec_pop v1 (Some [0, 0]) = Inr (v2, Some out') \<and>
      take 2 out' = [8, 9] \<and> vec_len v1 = 2 \<and> vec_len v2 = 1 \<and> size_v v2 = 2 \<and>
      contents v2 = [1, 2] \<and> elems_of v2 = [[1, 2]])"
proof -
  let ?v = "\<lparr>ptr = [1, 2], size_v = 2, len = 1, cap = 1\<rparr>"
  have ok: "vec_ok ?v"
    by (simp add: vec_ok_def PTRDIFF_MAX_def)
  have c: "contents ?v = [1, 2]" "elems_of ?v = [[1, 2]]"
    by (simp_all add: contents_def elems_of_def elem_at_def)
  show ?thesis
    using ok c push_then_pop [of ?v "[8, 9]" "[0, 0]" "\<lambda>_. 0"]
    by (simp add: vec_len_def)
qed

section \<open>Arena reallocation\<close>

lemma find_node_unmatched:
  "nodes h cur xs \<Longrightarrow> needle \<notin> set xs \<Longrightarrow>
   \<exists>p. find_node h needle prev cur = Some (Inr (p, 0))"
proof (induction xs arbitrary: prev cur)
  case Nil
  then show ?case by (simp add: find_node.simps)
next
  case (Cons x xs)
  from Cons.prems obtain nd where
    cur: "cur = x" "cur \<noteq> 0" "cur \<noteq> needle" and nd: "h cur = Some nd"
    and rest: "nodes h (next_node nd) xs" "needle \<notin> set xs"
    by (auto split: option.splits)
  from Cons.IH [OF rest, of cur] obtain p where
    "find_node h needle cur (next_node nd) = Some (Inr (p, 0))" by blast
  then show ?case
    using cur nd by (subst find_node.simps) simp
qed

lemma arena_realloc_empty:
  "head arena = 0 \<Longrightarrow>
   arena_realloc u a (h, arena) bytes p = Some (Inr ((h, arena), 0))"
  by (simp add: arena_realloc_def)

lemma arena_realloc_unmatched:
  assumes "nodes h (head arena) xs" "p - sizeof_ArenaNode \<notin> set xs"
  shows "arena_realloc u a (h, arena) bytes p = Some (Inr ((h, arena), 0))"
proof -
  from find_node_unmatched [OF assms, of 0] obtain q where
    "find_node h (p - sizeof_ArenaNode) 0 (head arena) = Some (Inr (q, 0))" by blast
  then show ?thesis
    by (simp add: arena_realloc_def)
qed

text \<open>
  The range test of \<open>vec_remove_n\<close>, read on the integers: a request with
  \<open>pos + n - 1 \<ge> len\<close> is rejected as long as \<open>pos + n\<close> does not exceed \<open>2^64\<close>.
\<close>

lemma remove_guard_out_of_range:
  assumes out: "int (unat (len v)) \<le> int (unat pos) + int (unat n) - 1"
    and rep: "unat pos + unat n \<le> 2 ^ 64"
  shows "\<not> pos + n - 1 < len v"
proof (cases "unat pos + unat n < 2 ^ 64")
  case True
  then have u: "unat (pos + n) = unat pos + unat n"
    by (rule unat_add_size)
  have "1 \<le> unat pos + unat n"
    using out by linarith
  then have "1 \<le> pos + n"
    using u by (simp add: word_le_nat_alt)
  then have "unat (pos + n - 1) = unat (pos + n) - 1"
    by (simp add: unat_sub)
  then have "unat (len v) \<le> unat (pos + n - 1)"
    using u out by linarith
  then show ?thesis
    by (simp add: word_less_nat_alt)
next
  case False
  then have "unat pos + unat n = 2 ^ 64"
    using rep by linarith
  then have "unat (pos + n) = 0"
    by (simp add: unat_word_ariths)
  then have "pos + n = 0"
    by (simp add: unat_eq_0)
  then have "pos + n - 1 = - 1"
    by simp
  then show ?thesis
    by (simp add: word_order.extremum_strict)
qed

lemma vec_remove_n_out_of_range:
  assumes "int (unat (len v)) \<le> int (unat pos) + int (unat n) - 1"
    and "unat pos + unat n \<le> 2 ^ 64"
  shows "vec_remove_n v pos out n = Inr (v, out)"
  using remove_guard_out_of_range [OF assms] by (simp add: vec_remove_n_def)

text \<open>
  C5, as stated, fails for \<open>vec_remove_n\<close> where \<open>pos + n - 1\<close> wraps around: for
  \<open>pos = 5\<close>, \<open>n = 2^64 - 3\<close> and a vector of length 2 the request is out of range
  (\<open>pos + n - 1 \<ge> len\<close> on the integers), yet the source's test reads \<open>1 < 2\<close> and
  the call is not a no-op: it sets the length to 5.
\<close>

theorem vec_remove_n_wrapped_request_is_applied:
  "int (unat (len \<lparr>ptr = [1, 2, 3], size_v = 1, len = 2, cap = 3\<rparr>))
     \<le> int (unat (5 :: size_t)) + int (unat (18446744073709551613 :: size_t)) - 1 \<and>
   vec_remove_n \<lparr>ptr = [1, 2, 3], size_v = 1, len = 2, cap = 3\<rparr> 5 None 18446744073709551613
     = Inr (\<lparr>ptr = [1, 2, 3], size_v = 1, len = 5, cap = 3\<rparr>, None) \<and>
   vec_remove_n \<lparr>ptr = [1, 2, 3], size_v = 1, len = 2, cap = 3\<rparr> 5 None 18446744073709551613
     \<noteq> Inr (\<lparr>ptr = [1, 2, 3], size_v = 1, len = 2, cap = 3\<rparr>, None)"
  by (simp add: vec_remove_n_def)

text \<open>
  C5, amended. A call with an invalid argument changes nothing: \<open>vec_insert_n\<close> and
  \<open>vec_insert\<close> with \<open>pos > len\<close>, \<open>vec_remove_n\<close> with \<open>pos + n - 1 \<ge> len\<close> on the
  integers and \<open>pos + n \<le> 2^64\<close> (so that \<open>pos + n - 1\<close> does not wrap around),
  \<open>vec_remove\<close>, \<open>vec_get\<close> and \<open>vec_set\<close> with \<open>pos \<ge> len\<close>, and \<open>vec_pop\<close> on an empty
  vector return the vector and the caller's buffers exactly as they were;
  \<open>arena_realloc\<close> on an arena with no node, or with a pointer that is the payload of
  no node of the arena's list, returns \<open>NULL\<close> and leaves heap and arena exactly as
  they were.
\<close>

theorem invalid_argument_is_no_op:
  "(len v < pos \<longrightarrow>
      vec_insert_n u v elems n pos = Inr v \<and> vec_insert u v elems pos = Inr v) \<and>
   (int (unat (len v)) \<le> int (unat pos) + int (unat n) - 1 \<and> unat pos + unat n \<le> 2 ^ 64 \<longrightarrow>
      vec_remove_n v pos out n = Inr (v, out)) \<and>
   (len v \<le> pos \<longrightarrow> vec_remove v pos out = Inr (v, out)) \<and>
   (len v \<le> pos \<longrightarrow> vec_get v pos elem = Inr elem \<and> vec_set v elem pos = Inr v) \<and>
   (len v = 0 \<longrightarrow> vec_pop v out = Inr (v, out)) \<and>
   (head arena0 = 0 \<longrightarrow>
      arena_realloc u a (h0, arena0) bytes p = Some (Inr ((h0, arena0), 0))) \<and>
   (nodes h (head arena) xs \<and> p - sizeof_ArenaNode \<notin> set xs \<longrightarrow>
      arena_realloc u a (h, arena) bytes p = Some (Inr ((h, arena), 0)))"
proof -
  have "len v < pos \<Longrightarrow> vec_insert_n u v elems n pos = Inr v" for n
    by (auto simp: vec_insert_n_def)
  moreover have "len v \<le> pos \<Longrightarrow> vec_remove v pos out = Inr (v, out)"
  proof -
    assume le: "len v \<le> pos"
    have "unat pos < 2 ^ 64"
      using unsigned_less [of pos, where 'a = nat] by simp
    then have "unat pos + unat (1 :: size_t) \<le> 2 ^ 64"
      by simp
    moreover have "int (unat (len v)) \<le> int (unat pos) + int (unat (1 :: size_t)) - 1"
      using le by (simp add: word_le_def)
    ultimately show ?thesis
      unfolding vec_remove_def by (intro vec_remove_n_out_of_range)
  qed
  moreover have "len v \<le> pos \<Longrightarrow> vec_get v pos elem = Inr elem \<and> vec_set v elem pos = Inr v"
    by (auto simp: vec_get_def vec_set_def)
  moreover have "len v = 0 \<Longrightarrow> vec_pop v out = Inr (v, out)"
    by (simp add: vec_pop_def)
  ultimately show ?thesis
    using arena_realloc_empty [of arena0 u a h0 bytes p]
      arena_realloc_unmatched [of h arena xs p u a bytes]
      vec_remove_n_out_of_range [of v pos n out]
    by (simp add: vec_insert_def)
qed

theorem invalid_argument_is_no_op_witness:
  "vec_insert_n (\<lambda>_. 0) \<lparr>ptr = [1, 2], size_v = 1, len = 1, cap = 2\<rparr> [7] 1 2
     = Inr \<lparr>ptr = [1, 2], size_v = 1, len = 1, cap = 2\<rparr> \<and>
   vec_insert (\<lambda>_. 0) \<lparr>ptr = [1, 2], size_v = 1, len = 1, cap = 2\<rparr> [7] 2
     = Inr \<lparr>ptr = [1, 2], size_v = 1, len = 1, cap = 2\<rparr> \<and>
   vec_remove_n \<lparr>ptr = [1, 2], size_v = 1, len = 1, cap = 2\<rparr> 2 (Some [5]) 1
     = Inr (\<lparr>ptr = [1, 2], size_v = 1, len = 1, cap = 2\<rparr>, Some [5]) \<and>
   vec_remove \<lparr>ptr = [1, 2], size_v = 1, len = 1, cap = 2\<rparr> 2 (Some [5])
     = Inr (\<lparr>ptr = [1, 2], size_v = 1, len = 1, cap = 2\<rparr>, Some [5]) \<and>
   vec_get \<lparr>ptr = [1, 2], size_v = 1, len = 1, cap = 2\<rparr> 2 [5] = Inr [5] \<and>
   vec_set \<lparr>ptr = [1, 2], size_v = 1, len = 1, cap = 2\<rparr> [5] 2
     = Inr \<lparr>ptr = [1, 2], size_v = 1, len = 1, cap = 2\<rparr> \<and>
   vec_pop \<lparr>ptr = [1, 2], size_v = 1, len = 0, cap = 2\<rparr> (Some [5])
     = Inr (\<lparr>ptr = [1, 2], size_v = 1, len = 0, cap = 2\<rparr>, Some [5]) \<and>
   arena_realloc (\<lambda>_. 0) 12288 (Map.empty, \<lparr>head = 0\<rparr>) 64 4104
     = Some (Inr ((Map.empty, \<lparr>head = 0\<rparr>), 0)) \<and>
   arena_realloc (\<lambda>_. 0) 12288
       ([4096 \<mapsto> \<lparr>next_node = 0, payload = [1]\<rparr>], \<lparr>head = 4096\<rparr>) 64 8200
     = Some (Inr (([4096 \<mapsto> \<lparr>next_node = 0, payload = [1]\<rparr>], \<lparr>head = 4096\<rparr>), 0))"
proof -
  let ?v = "\<lparr>ptr = [1, 2], size_v = 1, len = 1, cap = 2\<rparr>"
  let ?h = "[4096 \<mapsto> \<lparr>next_node = 0, payload = [1]\<rparr>] :: heap"
  have n: "nodes ?h (head \<lparr>head = 4096\<rparr>) [4096]"
    by simp
  show ?thesis
    using invalid_argument_is_no_op [of ?v 2 "\<lambda>_. 0" "[7]" 1 "Some [5]" "[5]" "\<lparr>head = 0\<rparr>"
        12288 Map.empty 64 4104 ?h "\<lparr>head = 4096\<rparr>" "[4096]"]
      invalid_argument_is_no_op [of "\<lparr>ptr = [1, 2], size_v = 1, len = 0, cap = 2\<rparr>" 2
        "\<lambda>_. 0" "[7]" 1 "Some [5]" "[5]" "\<lparr>head = 0\<rparr>"
        12288 Map.empty 64 8200 ?h "\<lparr>head = 4096\<rparr>" "[4096]"]
      n
    by (simp add: sizeof_ArenaNode_def)
qed

text \<open>
  C3. The scenario of the spec: \<open>arena_alloc(16)\<close> returns \<open>A\<close>, \<open>arena_alloc(32)\<close>
  returns \<open>B\<close>, then \<open>arena_realloc(64, A)\<close>. The node of \<open>A\<close> is found, resized (here
  moved from address 4096 to 12288), its first 16 payload bytes are kept and its
  predecessor is relinked to it. But the value returned is
  \<open>((char *)next) + sizeof(ArenaNode)\<close>, where \<open>next\<close> is the successor of the resized
  node: here \<open>NULL + 8\<close>, not the payload pointer \<open>12288 + 8\<close> of the resized node.
\<close>

theorem arena_realloc_returns_successor:
  "arena_alloc u 4096 (Map.empty, \<lparr>head = 0\<rparr>) 16
     = Inr (([4096 \<mapsto> \<lparr>next_node = 0, payload = fresh u 0 16\<rparr>], \<lparr>head = 4096\<rparr>), 4104) \<and>
   arena_alloc u 8192
       ([4096 \<mapsto> \<lparr>next_node = 0, payload = fresh u 0 16\<rparr>], \<lparr>head = 4096\<rparr>) 32
     = Inr (([4096 \<mapsto> \<lparr>next_node = 0, payload = fresh u 0 16\<rparr>,
              8192 \<mapsto> \<lparr>next_node = 4096, payload = fresh u 0 32\<rparr>], \<lparr>head = 8192\<rparr>),
            8200) \<and>
   arena_realloc u 12288
       ([4096 \<mapsto> \<lparr>next_node = 0, payload = fresh u 0 16\<rparr>,
         8192 \<mapsto> \<lparr>next_node = 4096, payload = fresh u 0 32\<rparr>], \<lparr>head = 8192\<rparr>) 64 4104
     = Some (Inr (([12288 \<mapsto> \<lparr>next_node = 0, payload = fresh u 0 16 @ fresh u 16 64\<rparr>,
                    8192 \<mapsto> \<lparr>next_node = 12288, payload = fresh u 0 32\<rparr>],
                   \<lparr>head = 8192\<rparr>), 8))"
  by (simp add: arena_alloc_def arena_realloc_def sizeof_ArenaNode_def find_node.simps
      length_fresh)

section \<open>The invariant \<open>len \<le> cap\<close>\<close>

lemma v_move_fields:
  "v_move v p src k = Inr v' \<Longrightarrow> len v' = len v \<and> cap v' = cap v \<and> size_v v' = size_v v"
  by (auto simp: v_move_def split: sum.splits)

lemma v_cpy_fields:
  "v_cpy v p src k = Inr v' \<Longrightarrow> len v' = len v \<and> cap v' = cap v \<and> size_v v' = size_v v"
  by (auto simp: v_cpy_def split: sum.splits)

lemma vec_insert_n_fields:
  assumes "vec_insert_n u v elems n pos = Inr v'" "pos \<le> len v"
  shows "len v' = len v + n \<and> cap v' = cap (vec_reserve u v (len v + n))"
proof -
  let ?v1 = "vec_reserve u v (len v + n)"
  from assms obtain v2 v3 where
    "v_move ?v1 (pos + n) (v_at_ptr ?v1 pos) (len ?v1 - pos) = Inr v2"
    "v_cpy v2 pos elems n = Inr v3" "v' = v3\<lparr>len := len v3 + n\<rparr>"
    by (auto simp: vec_insert_n_def Let_def split: sum.splits)
  then show ?thesis
    using v_move_fields [of ?v1 _ _ _ v2] v_cpy_fields [of v2 _ _ _ v3]
    by (simp add: vec_reserve_len)
qed

lemma vec_insert_n_len_le_cap:
  assumes "vec_insert_n u v elems n pos = Inr v'" "len v \<le> cap v"
  shows "len v' \<le> cap v'"
proof (cases "pos \<le> len v")
  case True
  then show ?thesis
    using vec_insert_n_fields [OF assms(1) True] vec_reserve_cap_ge [of "len v + n" u v]
    by simp
next
  case False
  then show ?thesis using assms by (simp add: vec_insert_n_def)
qed

lemma vec_remove_n_len_le_cap:
  assumes "vec_remove_n v pos out n = Inr (v', out')" "len v \<le> cap v" "n \<le> len v"
  shows "len v' \<le> cap v'"
proof -
  have le: "len v - n \<le> cap v"
    using assms(2,3) by (meson order_trans word_sub_le)
  show ?thesis
    using assms(1,2) le v_move_fields [of v pos _ _ ]
    by (auto simp: vec_remove_n_def split: if_splits sum.splits option.splits)
qed

lemma vec_shrink_to_fit_len_le_cap:
  "len v \<le> cap v \<Longrightarrow> len (vec_shrink_to_fit u v) \<le> cap (vec_shrink_to_fit u v)"
  by (auto simp: vec_shrink_to_fit_def v_resize_def v_realloc_def v_alloc_def)

lemma vec_reserve_len_le_cap:
  assumes "len v \<le> cap v"
  shows "len (vec_reserve u v n) \<le> cap (vec_reserve u v n)"
proof (cases "n \<le> cap v")
  case True
  then show ?thesis using assms by (auto simp: vec_reserve_def)
next
  case False
  then have "len v \<le> n" using assms by simp
  then show ?thesis
    using vec_reserve_cap_ge [of n u v] by (simp add: vec_reserve_len)
qed

lemma vec_new_with_len_le_cap:
  "len (vec_new_with u v sz n) \<le> cap (vec_new_with u v sz n)"
  by (simp add: vec_new_with_def vec_reserve_len vec_new_def)

lemma vec_pop_len_le_cap:
  assumes "vec_pop v out = Inr (v', out')" "len v \<le> cap v"
  shows "len v' \<le> cap v'"
proof -
  have "len v - 1 \<le> cap v" if "len v \<noteq> 0"
  proof -
    have "1 \<le> len v" using that by (simp add: word_le_nat_alt unat_gt_0 Suc_le_eq)
    then show ?thesis using assms(2) by (meson order_trans word_sub_le)
  qed
  then show ?thesis
    using assms by (auto simp: vec_pop_def split: if_splits sum.splits option.splits)
qed

lemma vec_set_len_le_cap:
  "vec_set v elem pos = Inr v' \<Longrightarrow> len v \<le> cap v \<Longrightarrow> len v' \<le> cap v'"
  using v_cpy_fields [of v pos elem 1 v']
  by (auto simp: vec_set_def split: if_splits)

text \<open>
  C4, as stated, fails for \<open>vec_remove_n\<close>: the test \<open>pos + n - 1 < len\<close> is computed
  in \<open>size_t\<close>, so for \<open>pos = 4\<close> and \<open>n = 2^64 - 3\<close> it reads \<open>0 < len\<close>, and
  \<open>len -= n\<close> then raises the length of a one-element vector of capacity 2 to 4.
\<close>

theorem vec_remove_n_breaks_len_le_cap:
  "len \<lparr>ptr = [1, 2], size_v = 1, len = 1, cap = 2\<rparr>
     \<le> cap \<lparr>ptr = [1, 2], size_v = 1, len = 1, cap = 2\<rparr> \<and>
   vec_remove_n \<lparr>ptr = [1, 2], size_v = 1, len = 1, cap = 2\<rparr> 4 None 18446744073709551613
     = Inr (\<lparr>ptr = [1, 2], size_v = 1, len = 4, cap = 2\<rparr>, None) \<and>
   \<not> len \<lparr>ptr = [1, 2], size_v = 1, len = 4, cap = 2\<rparr>
       \<le> cap \<lparr>ptr = [1, 2], size_v = 1, len = 4, cap = 2\<rparr>"
  by (simp add: vec_remove_n_def)

text \<open>
  \<open>vec_init\<close> (see C2) sets \<open>len = n\<close> over a buffer of \<open>max(size, 2)\<close> slots: for
  \<open>size = 1\<close>, \<open>n = 3\<close> its \<open>memset\<close> of 9 bytes overruns the 6 bytes allocated.
\<close>

lemma vec_init_overruns_buffer:
  "vec_init u \<lparr>ptr = [], size_v = 0, len = 0, cap = 0\<rparr> 1 3 = Inl OutOfBounds"
  by (simp add: vec_init_def vec_new_with_def vec_new_def vec_reserve_def v_resize_def
      v_alloc_def GROWTH_FACTOR_def length_fresh v_set_def memset_def mem_write_def v_at_def)

text \<open>
  C4, amended. \<open>len \<le> cap\<close> holds of the vectors \<open>vec_new\<close>, \<open>vec_new_with\<close> and
  \<open>vec_from\<close> produce, and every vector with \<open>len \<le> cap\<close> keeps it through
  \<open>vec_reserve\<close>, \<open>vec_shrink_to_fit\<close>, \<open>vec_clear\<close>, \<open>vec_insert_n\<close>, \<open>vec_insert\<close>,
  \<open>vec_push\<close>, \<open>vec_pop\<close> and \<open>vec_set\<close>, and through \<open>vec_remove_n\<close> and
  \<open>vec_remove\<close> when the count removed is at most \<open>len\<close>. (That the calls return for
  valid arguments is part of C7 and C8.)
\<close>

theorem len_le_cap_preserved:
  "len (vec_new v sz) \<le> cap (vec_new v sz) \<and>
   len (vec_new_with u v sz n) \<le> cap (vec_new_with u v sz n) \<and>
   (\<forall>v'. vec_from u v sz elems n = Inr v' \<longrightarrow> len v' \<le> cap v') \<and>
   (len v \<le> cap v \<longrightarrow>
      len (vec_reserve u v n) \<le> cap (vec_reserve u v n) \<and>
      len (vec_shrink_to_fit u v) \<le> cap (vec_shrink_to_fit u v) \<and>
      len (vec_clear v) \<le> cap (vec_clear v) \<and>
      (\<forall>v'. vec_insert_n u v elems n pos = Inr v' \<longrightarrow> len v' \<le> cap v') \<and>
      (\<forall>v'. vec_insert u v elems pos = Inr v' \<longrightarrow> len v' \<le> cap v') \<and>
      (\<forall>v'. vec_push u v elems = Inr v' \<longrightarrow> len v' \<le> cap v') \<and>
      (\<forall>v' out'. vec_pop v out = Inr (v', out') \<longrightarrow> len v' \<le> cap v') \<and>
      (\<forall>v'. vec_set v elems pos = Inr v' \<longrightarrow> len v' \<le> cap v') \<and>
      (n \<le> len v \<longrightarrow>
         (\<forall>v' out'. vec_remove_n v pos out n = Inr (v', out') \<longrightarrow> len v' \<le> cap v')) \<and>
      (1 \<le> len v \<longrightarrow>
         (\<forall>v' out'. vec_remove v pos out = Inr (v', out') \<longrightarrow> len v' \<le> cap v')))"
proof -
  have "len (vec_new v sz) \<le> cap (vec_new v sz)"
    by (simp add: vec_new_def)
  moreover have "vec_from u v sz elems n = Inr v' \<Longrightarrow> len v' \<le> cap v'" for v'
    using vec_insert_n_len_le_cap [of u "vec_new v sz" elems 0 n v']
    by (simp add: vec_from_def vec_new_def)
  moreover have "len (vec_clear v) \<le> cap (vec_clear v)"
    by (simp add: vec_clear_def)
  ultimately show ?thesis
    using vec_new_with_len_le_cap [of u v sz n] vec_reserve_len_le_cap [of v u n]
      vec_shrink_to_fit_len_le_cap [of v u]
      vec_insert_n_len_le_cap [of u v elems _ _ _]
      vec_pop_len_le_cap [of v out] vec_set_len_le_cap [of v elems pos]
      vec_remove_n_len_le_cap [of v pos out _]
    by (auto simp: vec_insert_def vec_push_def vec_remove_def)
qed

theorem len_le_cap_preserved_witness:
  "len (vec_new \<lparr>ptr = [1, 2], size_v = 1, len = 1, cap = 2\<rparr> 1)
     \<le> cap (vec_new \<lparr>ptr = [1, 2], size_v = 1, len = 1, cap = 2\<rparr> 1) \<and>
   vec_from (\<lambda>_. 0) \<lparr>ptr = [1, 2], size_v = 1, len = 1, cap = 2\<rparr> 1 [7] 0
     = Inr \<lparr>ptr = [1, 2], size_v = 1, len = 0, cap = 0\<rparr> \<and>
   len \<lparr>ptr = [1, 2], size_v = 1, len = 1, cap = 2\<rparr>
     \<le> cap \<lparr>ptr = [1, 2], size_v = 1, len = 1, cap = 2\<rparr> \<and>
   len (vec_reserve (\<lambda>_. 0) \<lparr>ptr = [1, 2], size_v = 1, len = 1, cap = 2\<rparr> 1)
     \<le> cap (vec_reserve (\<lambda>_. 0) \<lparr>ptr = [1, 2], size_v = 1, len = 1, cap = 2\<rparr> 1) \<and>
   len (vec_shrink_to_fit (\<lambda>_. 0) \<lparr>ptr = [1, 2], size_v = 1, len = 1, cap = 2\<rparr>)
     \<le> cap (vec_shrink_to_fit (\<lambda>_. 0) \<lparr>ptr = [1, 2], size_v = 1, len = 1, cap = 2\<rparr>) \<and>
   vec_insert_n (\<lambda>_. 0) \<lparr>ptr = [1, 2], size_v = 1, len = 1, cap = 2\<rparr> [7] 1 0
     = Inr \<lparr>ptr = [7, 1], size_v = 1, len = 2, cap = 2\<rparr> \<and>
   len \<lparr>ptr = [7, 1], size_v = 1, len = 2, cap = 2\<rparr>
     \<le> cap \<lparr>ptr = [7, 1], size_v = 1, len = 2, cap = 2\<rparr> \<and>
   vec_remove_n \<lparr>ptr = [1, 2], size_v = 1, len = 1, cap = 2\<rparr> 0 (Some [5]) 1
     = Inr (\<lparr>ptr = [1, 2], size_v = 1, len = 0, cap = 2\<rparr>, Some [1]) \<and>
   len \<lparr>ptr = [1, 2], size_v = 1, len = 0, cap = 2\<rparr>
     \<le> cap \<lparr>ptr = [1, 2], size_v = 1, len = 0, cap = 2\<rparr>"
  using len_le_cap_preserved [where v = "\<lparr>ptr = [1, 2], size_v = 1, len = 1, cap = 2\<rparr>"
      and sz = 1 and u = "\<lambda>_. 0" and n = 1 and elems = "[7]" and pos = 0 and out = "Some [5]"]
    len_le_cap_preserved [where v = "\<lparr>ptr = [1, 2], size_v = 1, len = 1, cap = 2\<rparr>"
      and sz = 1 and u = "\<lambda>_. 0" and n = 0 and elems = "[7]" and pos = 0 and out = "Some [5]"]
  by (simp add: vec_from_def vec_new_def vec_insert_n_def vec_reserve_def v_move_def
      v_cpy_def v_at_def v_at_ptr_def memmove_def memcpy_def mem_read_def mem_write_def
      vec_remove_n_def v_cpy_to_def)

section \<open>Swap\<close>

lemma slot_write:
  assumes w: "length w = s" and fit: "j * s + s \<le> length b"
  shows "take s (drop (i * s) (take (j * s) b @ w @ drop (j * s + s) b))
           = (if i = j then w else take s (drop (i * s) b))"
proof -
  have la: "length (take (j * s) b) = j * s"
    using fit by simp
  consider (eq) "i = j" | (lt) "i < j" | (gt) "j < i" by linarith
  then show ?thesis
  proof cases
    case eq
    then show ?thesis using la w by (simp del: length_take)
  next
    case lt
    then have "Suc i * s \<le> j * s" by (intro mult_le_mono1) simp
    then have le: "i * s + s \<le> j * s" by simp
    then have "i * s \<le> j * s" by linarith
    then have z: "i * s - j * s = 0" by (simp only: diff_is_0_eq)
    have "drop (i * s) (take (j * s) b @ w @ drop (j * s + s) b)
        = drop (i * s) (take (j * s) b) @ w @ drop (j * s + s) b"
      using la z by (simp del: length_take)
    moreover have "s \<le> length (drop (i * s) (take (j * s) b))"
      using le la by (simp del: length_take)
    moreover have "take s (drop (i * s) (take (j * s) b)) = take s (drop (i * s) b)"
      using le by (simp add: drop_take min_def)
    ultimately show ?thesis using lt by simp
  next
    case gt
    then have "Suc j * s \<le> i * s" by (intro mult_le_mono1) simp
    then have le: "j * s + s \<le> i * s" by simp
    have lw: "length (take (j * s) b @ w) = j * s + s"
      using la w by (simp del: length_take)
    have nil: "drop (i * s) (take (j * s) b @ w) = []"
      using lw le by (simp only: drop_eq_Nil)
    have "drop (i * s) ((take (j * s) b @ w) @ drop (j * s + s) b)
        = drop (i * s) (take (j * s) b @ w)
          @ drop (i * s - length (take (j * s) b @ w)) (drop (j * s + s) b)"
      by (rule drop_append)
    also have "\<dots> = drop (i * s - (j * s + s)) (drop (j * s + s) b)"
      by (simp only: nil lw append_Nil)
    also have "\<dots> = drop (i * s) b"
      using le by (simp only: drop_drop le_add_diff_inverse2)
    finally show ?thesis using gt by simp
  qed
qed

lemma v_cpy_elem:
  assumes fit: "unat pos * unat (size_v v) + unat (size_v v) \<le> length (ptr v)"
    and rep: "unat pos * unat (size_v v) < 2 ^ 64"
    and src: "unat (size_v v) \<le> length src"
  shows "\<exists>v'. v_cpy v pos src 1 = Inr v' \<and>
           len v' = len v \<and> cap v' = cap v \<and> size_v v' = size_v v \<and>
           length (ptr v') = length (ptr v) \<and>
           (\<forall>i. elem_at v' i = (if i = unat pos then take (unat (size_v v)) src else elem_at v i))"
proof -
  let ?s = "unat (size_v v)" and ?P = "unat pos"
  define b' where "b' = take (?P * ?s) (ptr v) @ take ?s src @ drop (?P * ?s + ?s) (ptr v)"
  have o: "unat (pos * size_v v) = ?P * ?s"
    using rep by (rule unat_mult_size)
  have "v_cpy v pos src 1 = Inr (v\<lparr>ptr := b'\<rparr>)"
    using fit src by (simp add: v_cpy_def v_at_def o memcpy_ok b'_def)
  moreover have "length b' = length (ptr v)"
    using fit src by (auto simp: b'_def min_def)
  moreover have "elem_at (v\<lparr>ptr := b'\<rparr>) i = (if i = ?P then take ?s src else elem_at v i)" for i
    using slot_write [of "take ?s src" ?s ?P "ptr v" i] fit src
    by (simp add: elem_at_def b'_def)
  ultimately show ?thesis by simp
qed

lemma v_cpy_to_elem:
  assumes fit: "unat pos * unat (size_v v) + unat (size_v v) \<le> length (ptr v)"
    and rep: "unat pos * unat (size_v v) < 2 ^ 64"
    and dst: "unat (size_v v) \<le> length dest"
  shows "v_cpy_to dest v pos 1 = Inr (elem_at v (unat pos) @ drop (unat (size_v v)) dest)"
    and "length (elem_at v (unat pos)) = unat (size_v v)"
proof -
  let ?s = "unat (size_v v)" and ?P = "unat pos"
  have o: "unat (pos * size_v v) = ?P * ?s"
    using rep by (rule unat_mult_size)
  have "?s \<le> length (drop (?P * ?s) (ptr v))"
    using fit by simp
  then have "memcpy dest 0 (drop (?P * ?s) (ptr v)) ?s
      = Inr (take 0 dest @ take ?s (drop (?P * ?s) (ptr v)) @ drop (0 + ?s) dest)"
    using dst by (intro memcpy_ok) simp_all
  then show "v_cpy_to dest v pos 1 = Inr (elem_at v ?P @ drop ?s dest)"
    by (simp add: v_cpy_to_def v_at_ptr_def v_at_def o elem_at_def)
  show "length (elem_at v ?P) = ?s"
    using fit by (simp add: elem_at_def)
qed

lemma vec_swap_spec:
  assumes fit1: "unat pos1 * unat (size_v v) + unat (size_v v) \<le> length (ptr v)"
    and fit2: "unat pos2 * unat (size_v v) + unat (size_v v) \<le> length (ptr v)"
    and rep1: "unat pos1 * unat (size_v v) < 2 ^ 64"
    and rep2: "unat pos2 * unat (size_v v) < 2 ^ 64"
    and tmp: "unat (size_v v) \<le> length tmp"
  shows "\<exists>v'. vec_swap v pos1 pos2 tmp
                 = Inr (v', elem_at v (unat pos1) @ drop (unat (size_v v)) tmp) \<and>
           len v' = len v \<and> cap v' = cap v \<and> size_v v' = size_v v \<and>
           length (ptr v') = length (ptr v) \<and>
           (\<forall>i. elem_at v' i =
                  (if i = unat pos2 then elem_at v (unat pos1)
                   else if i = unat pos1 then elem_at v (unat pos2)
                   else elem_at v i))"
proof -
  let ?s = "unat (size_v v)" and ?P1 = "unat pos1" and ?P2 = "unat pos2"
  define tmp' where "tmp' = elem_at v ?P1 @ drop ?s tmp"
  have t: "v_cpy_to tmp v pos1 1 = Inr tmp'" and l1: "length (elem_at v ?P1) = ?s"
    using v_cpy_to_elem [OF fit1 rep1 tmp] by (simp_all add: tmp'_def)
  have src2: "?s \<le> length (v_at_ptr v pos2)"
    using fit2 by (simp add: v_at_ptr_def v_at_def unat_mult_size [OF rep2])
  have e2: "take ?s (v_at_ptr v pos2) = elem_at v ?P2"
    by (simp add: v_at_ptr_def v_at_def unat_mult_size [OF rep2] elem_at_def)
  from v_cpy_elem [OF fit1 rep1 src2] obtain v1 where
    c1: "v_cpy v pos1 (v_at_ptr v pos2) 1 = Inr v1"
    and f1: "len v1 = len v" "cap v1 = cap v" "size_v v1 = size_v v"
            "length (ptr v1) = length (ptr v)"
    and el1: "\<And>i. elem_at v1 i = (if i = ?P1 then elem_at v ?P2 else elem_at v i)"
    by (auto simp: e2)
  have fit2': "unat pos2 * unat (size_v v1) + unat (size_v v1) \<le> length (ptr v1)"
    and rep2': "unat pos2 * unat (size_v v1) < 2 ^ 64"
    and tmp2: "unat (size_v v1) \<le> length tmp'"
    using fit2 rep2 l1 by (simp_all add: f1 tmp'_def)
  have tk: "take ?s tmp' = elem_at v ?P1"
    using l1 by (simp add: tmp'_def)
  from v_cpy_elem [OF fit2' rep2' tmp2] obtain v2 where
    c2: "v_cpy v1 pos2 tmp' 1 = Inr v2"
    and f2: "len v2 = len v" "cap v2 = cap v" "size_v v2 = size_v v"
            "length (ptr v2) = length (ptr v)"
    and el2: "\<And>i. elem_at v2 i = (if i = ?P2 then elem_at v ?P1 else elem_at v1 i)"
    by (auto simp: f1 tk)
  have "vec_swap v pos1 pos2 tmp = Inr (v2, tmp')"
    using t c1 c2 by (simp add: vec_swap_def)
  then show ?thesis
    using f2 el1 el2 by (auto simp: tmp'_def)
qed

lemma in_range_fits:
  assumes ok: "vec_ok v" and pos: "pos < len v"
  shows "unat pos * unat (size_v v) + unat (size_v v) \<le> length (ptr v)"
    and "unat pos * unat (size_v v) < 2 ^ 64"
proof -
  let ?s = "unat (size_v v)" and ?L = "unat (len v)" and ?C = "unat (cap v)"
  have "Suc (unat pos) \<le> ?L"
    using pos by (simp add: word_less_nat_alt)
  moreover have "?L \<le> ?C"
    using ok by (simp add: vec_ok_def word_le_nat_alt)
  ultimately have "Suc (unat pos) \<le> ?C" by linarith
  then have "Suc (unat pos) * ?s \<le> ?C * ?s" by (rule mult_le_mono1)
  then have le: "unat pos * ?s + ?s \<le> ?C * ?s" by simp
  have C: "?C * ?s \<le> PTRDIFF_MAX" and B: "?C * ?s \<le> length (ptr v)"
    using ok by (simp_all add: vec_ok_def)
  show "unat pos * ?s + ?s \<le> length (ptr v)"
    using le B by linarith
  have "unat pos * ?s \<le> PTRDIFF_MAX" using le C by linarith
  then show "unat pos * ?s < 2 ^ 64" by (simp add: PTRDIFF_MAX_def)
qed

lemma elems_of_swapped:
  assumes el: "\<And>i. elem_at v' i =
                  (if i = p2 then elem_at v p1 else if i = p1 then elem_at v p2 else elem_at v i)"
    and l: "len v' = len v" and p: "p1 < unat (len v)" "p2 < unat (len v)"
  shows "elems_of v' = (elems_of v)[p1 := elems_of v ! p2, p2 := elems_of v ! p1]"
  using p by (auto simp: elems_of_def l el list_eq_iff_nth_eq nth_list_update)

lemma vec_swap_in_range:
  assumes ok: "vec_ok v" and pos: "pos1 < len v" "pos2 < len v"
    and tmp: "unat (size_v v) \<le> length tmp"
  shows "\<exists>v' tmp'. vec_swap v pos1 pos2 tmp = Inr (v', tmp') \<and>
           len v' = len v \<and> cap v' = cap v \<and> size_v v' = size_v v \<and>
           length (ptr v') = length (ptr v) \<and> length tmp' = length tmp \<and>
           elems_of v' = (elems_of v)[unat pos1 := elems_of v ! unat pos2,
                                      unat pos2 := elems_of v ! unat pos1]"
proof -
  note f1 = in_range_fits [OF ok pos(1)] and f2 = in_range_fits [OF ok pos(2)]
  from vec_swap_spec [OF f1(1) f2(1) f1(2) f2(2) tmp] obtain v' where
    sw: "vec_swap v pos1 pos2 tmp
           = Inr (v', elem_at v (unat pos1) @ drop (unat (size_v v)) tmp)"
    and f: "len v' = len v" "cap v' = cap v" "size_v v' = size_v v"
           "length (ptr v') = length (ptr v)"
    and el: "\<And>i. elem_at v' i =
                  (if i = unat pos2 then elem_at v (unat pos1)
                   else if i = unat pos1 then elem_at v (unat pos2)
                   else elem_at v i)"
    by blast
  have p: "unat pos1 < unat (len v)" "unat pos2 < unat (len v)"
    using pos by (simp_all add: word_less_nat_alt)
  have "length (elem_at v (unat pos1)) = unat (size_v v)"
    using f1(1) by (simp add: elem_at_def)
  then have "length (elem_at v (unat pos1) @ drop (unat (size_v v)) tmp) = length tmp"
    using tmp by simp
  then show ?thesis
    using sw f elems_of_swapped [OF el f(1) p] by blast
qed

lemma slot_beyond_len:
  assumes s: "0 < size_v v" and pos: "len v \<le> pos"
    and rep: "unat pos * unat (size_v v) < 2 ^ 64"
  shows "slot v pos \<noteq> {}" and "slot v pos \<inter> valid_region v = {}"
proof -
  let ?s = "unat (size_v v)"
  have s1: "0 < ?s" using s by (simp add: word_less_nat_alt)
  have "unat (len v) \<le> unat pos" using pos by (simp add: word_le_nat_alt)
  then have le: "unat (len v) * ?s \<le> unat pos * ?s" by (rule mult_le_mono1)
  have o: "v_at v pos = unat pos * ?s"
    using rep by (simp add: v_at_def unat_mult_size)
  show "slot v pos \<noteq> {}"
    using s1 by (simp add: slot_def)
  show "slot v pos \<inter> valid_region v = {}"
    using le by (auto simp: slot_def valid_region_def o)
qed

lemma vec_swap_touches_slots:
  assumes "vec_swap v pos1 pos2 tmp = Inr r"
  shows "slot v pos1 \<union> slot v pos2 \<subseteq> {0 ..< length (ptr v)}"
proof -
  from assms have
    "unat (1 * size_v v) \<le> length (ptr v) - v_at v pos1"
    "unat (1 * size_v v) \<le> length (ptr v) - v_at v pos2"
    by (auto simp: vec_swap_def v_cpy_to_def v_cpy_def memcpy_def mem_read_def v_at_ptr_def
        split: sum.splits if_splits)
  then show ?thesis
    by (auto simp: slot_def)
qed

text \<open>
  C10, as stated, fails where \<open>pos * size\<close> wraps around: with stride 2, position
  \<open>2^63\<close> is not below the length 1, yet \<open>v_at\<close> maps it to offset 0, and the swap
  with position 0 reads and writes only the bytes of element 0, inside the valid
  element region.
\<close>

theorem vec_swap_wrapped_position_stays_inside:
  "len \<lparr>ptr = [1, 2], size_v = 2, len = 1, cap = 1\<rparr> \<le> 9223372036854775808 \<and>
   slot \<lparr>ptr = [1, 2], size_v = 2, len = 1, cap = 1\<rparr> 9223372036854775808
     \<union> slot \<lparr>ptr = [1, 2], size_v = 2, len = 1, cap = 1\<rparr> 0
     \<subseteq> valid_region \<lparr>ptr = [1, 2], size_v = 2, len = 1, cap = 1\<rparr> \<and>
   vec_swap \<lparr>ptr = [1, 2], size_v = 2, len = 1, cap = 1\<rparr> 9223372036854775808 0 [0, 0]
     = Inr (\<lparr>ptr = [1, 2], size_v = 2, len = 1, cap = 1\<rparr>, [1, 2])"
  by (simp add: slot_def valid_region_def v_at_def vec_swap_def v_cpy_to_def v_cpy_def
      v_at_ptr_def memcpy_def mem_read_def mem_write_def)

text \<open>
  C10, amended. \<open>vec_swap\<close> never consults \<open>len\<close>. For \<open>pos1, pos2 < len\<close> of a valid
  vector it exchanges exactly those two elements; length, capacity and stride stay.
  More generally it exchanges the two slots whenever both lie inside the buffer,
  whether or not the positions are below \<open>len\<close>, and it cannot return unless both
  slots lie inside the buffer. For a positive stride and a position \<open>pos \<ge> len\<close>
  whose offset \<open>pos * size\<close> does not wrap around, the slot it reads and writes is not
  empty and lies entirely outside the valid element region.
\<close>

theorem vec_swap_no_bounds_check:
  "(vec_ok v \<and> pos1 < len v \<and> pos2 < len v \<and> unat (size_v v) \<le> length tmp \<longrightarrow>
      (\<exists>v' tmp'. vec_swap v pos1 pos2 tmp = Inr (v', tmp') \<and>
         len v' = len v \<and> cap v' = cap v \<and> size_v v' = size_v v \<and>
         elems_of v' = (elems_of v)[unat pos1 := elems_of v ! unat pos2,
                                    unat pos2 := elems_of v ! unat pos1])) \<and>
   (unat pos1 * unat (size_v v) + unat (size_v v) \<le> length (ptr v) \<and>
    unat pos2 * unat (size_v v) + unat (size_v v) \<le> length (ptr v) \<and>
    unat pos1 * unat (size_v v) < 2 ^ 64 \<and> unat pos2 * unat (size_v v) < 2 ^ 64 \<and>
    unat (size_v v) \<le> length tmp \<longrightarrow>
      (\<exists>v'. vec_swap v pos1 pos2 tmp
                = Inr (v', elem_at v (unat pos1) @ drop (unat (size_v v)) tmp) \<and>
         len v' = len v \<and>
         (\<forall>i. elem_at v' i =
                (if i = unat pos2 then elem_at v (unat pos1)
                 else if i = unat pos1 then elem_at v (unat pos2)
                 else elem_at v i)))) \<and>
   (0 < size_v v \<and> len v \<le> pos \<and> unat pos * unat (size_v v) < 2 ^ 64 \<longrightarrow>
      slot v pos \<noteq> {} \<and> slot v pos \<inter> valid_region v = {}) \<and>
   (\<forall>r. vec_swap v pos1 pos2 tmp = Inr r \<longrightarrow>
      slot v pos1 \<union> slot v pos2 \<subseteq> {0 ..< length (ptr v)})"
proof -
  have a: "vec_ok v \<and> pos1 < len v \<and> pos2 < len v \<and> unat (size_v v) \<le> length tmp \<longrightarrow>
      (\<exists>v' tmp'. vec_swap v pos1 pos2 tmp = Inr (v', tmp') \<and>
         len v' = len v \<and> cap v' = cap v \<and> size_v v' = size_v v \<and>
         elems_of v' = (elems_of v)[unat pos1 := elems_of v ! unat pos2,
                                    unat pos2 := elems_of v ! unat pos1])"
    using vec_swap_in_range [of v pos1 pos2 tmp] by blast
  have b: "unat pos1 * unat (size_v v) + unat (size_v v) \<le> length (ptr v) \<and>
    unat pos2 * unat (size_v v) + unat (size_v v) \<le> length (ptr v) \<and>
    unat pos1 * unat (size_v v) < 2 ^ 64 \<and> unat pos2 * unat (size_v v) < 2 ^ 64 \<and>
    unat (size_v v) \<le> length tmp \<longrightarrow>
      (\<exists>v'. vec_swap v pos1 pos2 tmp
                = Inr (v', elem_at v (unat pos1) @ drop (unat (size_v v)) tmp) \<and>
         len v' = len v \<and>
         (\<forall>i. elem_at v' i =
                (if i = unat pos2 then elem_at v (unat pos1)
                 else if i = unat pos1 then elem_at v (unat pos2)
                 else elem_at v i)))"
    using vec_swap_spec [of pos1 v pos2 tmp] by blast
  have c: "0 < size_v v \<and> len v \<le> pos \<and> unat pos * unat (size_v v) < 2 ^ 64 \<longrightarrow>
      slot v pos \<noteq> {} \<and> slot v pos \<inter> valid_region v = {}"
    using slot_beyond_len [of v pos] by blast
  have d: "\<forall>r. vec_swap v pos1 pos2 tmp = Inr r \<longrightarrow>
      slot v pos1 \<union> slot v pos2 \<subseteq> {0 ..< length (ptr v)}"
    using vec_swap_touches_slots [of v pos1 pos2 tmp] by blast
  show ?thesis
    using a b c d by (intro conjI)
qed

theorem vec_swap_no_bounds_check_witness:
  "vec_ok \<lparr>ptr = [1, 2, 3, 4], size_v = 1, len = 2, cap = 4\<rparr> \<and>
   vec_swap \<lparr>ptr = [1, 2, 3, 4], size_v = 1, len = 2, cap = 4\<rparr> 0 1 [0]
     = Inr (\<lparr>ptr = [2, 1, 3, 4], size_v = 1, len = 2, cap = 4\<rparr>, [1]) \<and>
   elems_of \<lparr>ptr = [2, 1, 3, 4], size_v = 1, len = 2, cap = 4\<rparr> = [[2], [1]] \<and>
   vec_swap \<lparr>ptr = [1, 2, 3, 4], size_v = 1, len = 2, cap = 4\<rparr> 0 3 [0]
     = Inr (\<lparr>ptr = [4, 2, 3, 1], size_v = 1, len = 2, cap = 4\<rparr>, [1]) \<and>
   slot \<lparr>ptr = [1, 2, 3, 4], size_v = 1, len = 2, cap = 4\<rparr> 3 \<noteq> {} \<and>
   slot \<lparr>ptr = [1, 2, 3, 4], size_v = 1, len = 2, cap = 4\<rparr> 3
     \<inter> valid_region \<lparr>ptr = [1, 2, 3, 4], size_v = 1, len = 2, cap = 4\<rparr> = {} \<and>
   slot \<lparr>ptr = [1, 2, 3, 4], size_v = 1, len = 2, cap = 4\<rparr> 0
     \<union> slot \<lparr>ptr = [1, 2, 3, 4], size_v = 1, len = 2, cap = 4\<rparr> 3 \<subseteq> {0 ..< 4}"
proof -
  let ?v = "\<lparr>ptr = [1, 2, 3, 4], size_v = 1, len = 2, cap = 4\<rparr>"
  have ok: "vec_ok ?v"
    by (simp add: vec_ok_def PTRDIFF_MAX_def)
  have sw1: "vec_swap ?v 0 1 [0] = Inr (\<lparr>ptr = [2, 1, 3, 4], size_v = 1, len = 2, cap = 4\<rparr>, [1])"
    and sw2: "vec_swap ?v 0 3 [0] = Inr (\<lparr>ptr = [4, 2, 3, 1], size_v = 1, len = 2, cap = 4\<rparr>, [1])"
    by (simp_all add: vec_swap_def v_cpy_to_def v_cpy_def v_at_def v_at_ptr_def memcpy_def
        mem_read_def mem_write_def)
  have u: "[0..<2] = [0, 1 :: nat]"
    by (simp add: upt_rec)
  have e: "elems_of ?v = [[1], [2]]"
    "elems_of \<lparr>ptr = [2, 1, 3, 4], size_v = 1, len = 2, cap = 4\<rparr> = [[2], [1]]"
    by (simp_all add: elems_of_def elem_at_def u)
  have sl: "slot ?v 0 \<union> slot ?v 3 \<subseteq> {0 ..< 4}" "slot ?v 3 \<noteq> {}"
    "slot ?v 3 \<inter> valid_region ?v = {}"
    by (simp_all add: slot_def v_at_def valid_region_def)
  show ?thesis
    using ok sw1 sw2 e sl
      vec_swap_no_bounds_check [where v = ?v and ?pos1.0 = 0 and ?pos2.0 = 1 and tmp = "[0]"
        and pos = 3]
      vec_swap_no_bounds_check [where v = ?v and ?pos1.0 = 0 and ?pos2.0 = 3 and tmp = "[0]"
        and pos = 3]
    by simp
qed

section \<open>Sorting\<close>

lemma swap_mset_drop:
  assumes "i \<le> a" "a < length xs" "i \<le> b" "b < length xs"
  shows "mset (drop i (xs[a := xs ! b, b := xs ! a])) = mset (drop i xs)"
proof -
  have "mset ((drop i xs)[a - i := drop i xs ! (b - i), b - i := drop i xs ! (a - i)])
      = mset (drop i xs)"
    by (rule mset_swap) (use assms in simp_all)
  moreover have "drop i xs ! (b - i) = xs ! b" "drop i xs ! (a - i) = xs ! a"
    using assms by simp_all
  moreover have "drop i (xs[a := xs ! b, b := xs ! a])
      = (drop i xs)[a - i := xs ! b, b - i := xs ! a]"
    using assms by (simp add: drop_update_swap)
  ultimately show ?thesis by simp
qed

text \<open>One run of the inner loop: the prefix stays, the rest is permuted, and slot i ends
  up related to everything after it.\<close>

lemma exchange_inner_inv:
  assumes asym: "\<And>a b. a \<in> set xs \<Longrightarrow> b \<in> set xs \<Longrightarrow> gt a b \<Longrightarrow> \<not> gt b a"
    and trans: "\<And>a b c. a \<in> set xs \<Longrightarrow> b \<in> set xs \<Longrightarrow> c \<in> set xs \<Longrightarrow>
                  \<not> gt a b \<Longrightarrow> \<not> gt b c \<Longrightarrow> \<not> gt a c"
    and ij: "i < j" "i < length xs"
    and inv: "\<And>k. i < k \<Longrightarrow> k < j \<Longrightarrow> k < length xs \<Longrightarrow> \<not> gt (xs ! i) (xs ! k)"
  shows "take i (exchange_inner gt xs i j) = take i xs \<and>
         mset (drop i (exchange_inner gt xs i j)) = mset (drop i xs) \<and>
         (\<forall>k. i < k \<and> k < length xs \<longrightarrow>
              \<not> gt (exchange_inner gt xs i j ! i) (exchange_inner gt xs i j ! k))"
  using assms
proof (induction gt xs i j rule: exchange_inner.induct)
  case (1 gt xs i j)
  show ?case
  proof (cases "j < length xs")
    case False
    then have e: "exchange_inner gt xs i j = xs"
      by (subst exchange_inner.simps) simp
    have "\<not> gt (xs ! i) (xs ! k)" if "i < k" "k < length xs" for k
      using "1.prems"(5) [of k] that False by simp
    then show ?thesis
      by (simp add: e)
  next
    case True
    define ys where "ys = (if gt (xs ! i) (xs ! j) then xs[i := xs ! j, j := xs ! i] else xs)"
    have step: "exchange_inner gt xs i j = exchange_inner gt ys i (Suc j)"
      using True by (subst exchange_inner.simps) (simp add: ys_def)
    have ly: "length ys = length xs" by (simp add: ys_def)
    have my: "mset ys = mset xs"
      using True "1.prems"(4) by (simp add: ys_def mset_swap)
    then have sy: "set ys = set xs" by (rule mset_eq_setD)
    have ti: "take i ys = take i xs"
      using "1.prems"(3) by (simp add: ys_def)
    have di: "mset (drop i ys) = mset (drop i xs)"
      using swap_mset_drop [of i i xs j] True "1.prems"(3,4) by (simp add: ys_def)
    have xi: "xs ! i \<in> set xs" and xj: "xs ! j \<in> set xs"
      using True "1.prems"(4) by simp_all
    have inv': "\<not> gt (ys ! i) (ys ! k)" if k: "i < k" "k < Suc j" "k < length ys" for k
    proof (cases "gt (xs ! i) (xs ! j)")
      case False
      then have "ys = xs" by (simp add: ys_def)
      then show ?thesis
        using k False "1.prems"(5) [of k] by (cases "k = j") (auto simp: ly)
    next
      case gt: True
      then have yi: "ys ! i = xs ! j" and yj: "ys ! j = xs ! i"
        using True "1.prems"(3,4) by (simp_all add: ys_def nth_list_update)
      have ji: "\<not> gt (xs ! j) (xs ! i)"
        using "1.prems"(1) [OF xi xj gt] .
      show ?thesis
      proof (cases "k = j")
        case True
        then show ?thesis using ji by (simp add: yi yj)
      next
        case False
        then have kj: "k < j" using k by simp
        have yk: "ys ! k = xs ! k"
          using k False gt by (simp add: ys_def nth_list_update)
        have xk: "xs ! k \<in> set xs" using k ly by simp
        have "\<not> gt (xs ! i) (xs ! k)"
          using "1.prems"(5) [of k] k kj ly by simp
        then have "\<not> gt (xs ! j) (xs ! k)"
          using "1.prems"(2) [OF xj xi xk ji] by simp
        then show ?thesis by (simp add: yi yk)
      qed
    qed
    have IH: "take i (exchange_inner gt ys i (Suc j)) = take i ys \<and>
         mset (drop i (exchange_inner gt ys i (Suc j))) = mset (drop i ys) \<and>
         (\<forall>k. i < k \<and> k < length ys \<longrightarrow>
              \<not> gt (exchange_inner gt ys i (Suc j) ! i) (exchange_inner gt ys i (Suc j) ! k))"
    proof (rule "1.IH" [OF True, folded ys_def])
      show "\<And>a b. a \<in> set ys \<Longrightarrow> b \<in> set ys \<Longrightarrow> gt a b \<Longrightarrow> \<not> gt b a"
        using "1.prems"(1) unfolding sy by blast
      show "\<And>a b c. a \<in> set ys \<Longrightarrow> b \<in> set ys \<Longrightarrow> c \<in> set ys \<Longrightarrow>
                  \<not> gt a b \<Longrightarrow> \<not> gt b c \<Longrightarrow> \<not> gt a c"
        using "1.prems"(2) unfolding sy by blast
      show "i < Suc j" using "1.prems"(3) by simp
      show "i < length ys" using "1.prems"(4) by (simp add: ly)
      show "\<And>k. i < k \<Longrightarrow> k < Suc j \<Longrightarrow> k < length ys \<Longrightarrow> \<not> gt (ys ! i) (ys ! k)"
        using inv' by blast
    qed
    then show ?thesis
      by (simp add: step ti di ly)
  qed
qed

lemma exchange_inner_fixed:
  assumes "\<And>a b. a < b \<Longrightarrow> b < length xs \<Longrightarrow> \<not> gt (xs ! a) (xs ! b)" "i < j"
  shows "exchange_inner gt xs i j = xs"
  using assms
proof (induction gt xs i j rule: exchange_inner.induct)
  case (1 gt xs i j)
  show ?case
  proof (cases "j < length xs")
    case False
    then show ?thesis by (subst exchange_inner.simps) simp
  next
    case True
    then have n: "\<not> gt (xs ! i) (xs ! j)"
      using "1.prems" by blast
    have "exchange_inner gt xs i (Suc j) = xs"
      using "1.IH" [OF True] n "1.prems" by simp
    then show ?thesis
      using True n by (subst exchange_inner.simps) simp
  qed
qed

lemma exchange_outer_fixed:
  assumes "\<And>a b. a < b \<Longrightarrow> b < length xs \<Longrightarrow> \<not> gt (xs ! a) (xs ! b)"
  shows "exchange_outer gt xs i = xs"
  using assms
proof (induction gt xs i rule: exchange_outer.induct)
  case (1 gt xs i)
  show ?case
  proof (cases "i < length xs")
    case False
    then show ?thesis by (subst exchange_outer.simps) simp
  next
    case True
    have e: "exchange_inner gt xs i (Suc i) = xs"
      using "1.prems" by (intro exchange_inner_fixed) simp_all
    have "exchange_outer gt xs (Suc i) = xs"
      using "1.IH" [OF True] "1.prems" by (simp add: e)
    then show ?thesis
      using True by (subst exchange_outer.simps) (simp add: e)
  qed
qed

lemma exchange_outer_sorts:
  assumes asym: "\<And>a b. a \<in> set xs \<Longrightarrow> b \<in> set xs \<Longrightarrow> gt a b \<Longrightarrow> \<not> gt b a"
    and trans: "\<And>a b c. a \<in> set xs \<Longrightarrow> b \<in> set xs \<Longrightarrow> c \<in> set xs \<Longrightarrow>
                  \<not> gt a b \<Longrightarrow> \<not> gt b c \<Longrightarrow> \<not> gt a c"
    and inv: "\<And>a b. a < i \<Longrightarrow> a < b \<Longrightarrow> b < length xs \<Longrightarrow> \<not> gt (xs ! a) (xs ! b)"
  shows "mset (exchange_outer gt xs i) = mset xs \<and>
         (\<forall>a b. a < b \<and> b < length xs \<longrightarrow>
              \<not> gt (exchange_outer gt xs i ! a) (exchange_outer gt xs i ! b))"
  using assms
proof (induction gt xs i rule: exchange_outer.induct)
  case (1 gt xs i)
  show ?case
  proof (cases "i < length xs")
    case False
    then have e: "exchange_outer gt xs i = xs"
      by (subst exchange_outer.simps) simp
    have "\<not> gt (xs ! a) (xs ! b)" if "a < b" "b < length xs" for a b
      using "1.prems"(3) [of a b] that False by simp
    then show ?thesis by (simp add: e)
  next
    case True
    define ys where "ys = exchange_inner gt xs i (Suc i)"
    have step: "exchange_outer gt xs i = exchange_outer gt ys (Suc i)"
      using True by (subst exchange_outer.simps) (simp add: ys_def)
    have ly: "length ys = length xs"
      by (simp add: ys_def length_exchange_inner)
    have "take i ys = take i xs \<and> mset (drop i ys) = mset (drop i xs) \<and>
          (\<forall>k. i < k \<and> k < length xs \<longrightarrow> \<not> gt (ys ! i) (ys ! k))"
      unfolding ys_def
    proof (rule exchange_inner_inv)
      show "\<And>a b. a \<in> set xs \<Longrightarrow> b \<in> set xs \<Longrightarrow> gt a b \<Longrightarrow> \<not> gt b a"
        using "1.prems"(1) by blast
      show "\<And>a b c. a \<in> set xs \<Longrightarrow> b \<in> set xs \<Longrightarrow> c \<in> set xs \<Longrightarrow>
                  \<not> gt a b \<Longrightarrow> \<not> gt b c \<Longrightarrow> \<not> gt a c"
        using "1.prems"(2) by blast
      show "i < Suc i" by simp
      show "i < length xs" by (rule True)
      show "\<And>k. i < k \<Longrightarrow> k < Suc i \<Longrightarrow> k < length xs \<Longrightarrow> \<not> gt (xs ! i) (xs ! k)"
        by simp
    qed
    then have ti: "take i ys = take i xs" and di: "mset (drop i ys) = mset (drop i xs)"
      and mi: "\<And>k. i < k \<Longrightarrow> k < length xs \<Longrightarrow> \<not> gt (ys ! i) (ys ! k)"
      by blast+
    have "mset ys = mset (take i ys) + mset (drop i ys)"
      by (metis append_take_drop_id mset_append)
    also have "\<dots> = mset (take i xs) + mset (drop i xs)"
      by (simp only: ti di)
    also have "\<dots> = mset xs"
      by (metis append_take_drop_id mset_append)
    finally have my: "mset ys = mset xs" .
    then have sy: "set ys = set xs" by (rule mset_eq_setD)
    have low: "ys ! a = xs ! a" if "a < i" for a
      using that ti by (metis nth_take)
    have high: "\<exists>b'. i \<le> b' \<and> b' < length xs \<and> ys ! b = xs ! b'"
      if "i \<le> b" "b < length xs" for b
    proof -
      have "ys ! b = drop i ys ! (b - i)"
        using that ly by simp
      moreover have "b - i < length (drop i ys)"
        using that ly True by simp
      ultimately have "ys ! b \<in> set (drop i ys)"
        by (metis nth_mem)
      then have "ys ! b \<in> set (drop i xs)"
        using di by (metis mset_eq_setD)
      then obtain m where "m < length (drop i xs)" "drop i xs ! m = ys ! b"
        by (metis in_set_conv_nth)
      then have "i \<le> i + m \<and> i + m < length xs \<and> ys ! b = xs ! (i + m)"
        by simp
      then show ?thesis by blast
    qed
    have inv': "\<not> gt (ys ! a) (ys ! b)" if ab: "a < Suc i" "a < b" "b < length ys" for a b
    proof (cases "a = i")
      case True
      then show ?thesis using mi [of b] ab ly by simp
    next
      case False
      then have ai: "a < i" using ab by simp
      show ?thesis
      proof (cases "b < i")
        case True
        then show ?thesis
          using "1.prems"(3) [of a b] ai ab ly by (simp add: low)
      next
        case False
        then obtain b' where b': "i \<le> b'" "b' < length xs" "ys ! b = xs ! b'"
          using high [of b] ab ly by auto
        then show ?thesis
          using "1.prems"(3) [of a b'] ai by (simp add: low)
      qed
    qed
    have IH: "mset (exchange_outer gt ys (Suc i)) = mset ys \<and>
         (\<forall>a b. a < b \<and> b < length ys \<longrightarrow>
              \<not> gt (exchange_outer gt ys (Suc i) ! a) (exchange_outer gt ys (Suc i) ! b))"
    proof (rule "1.IH" [OF True, folded ys_def])
      show "\<And>a b. a \<in> set ys \<Longrightarrow> b \<in> set ys \<Longrightarrow> gt a b \<Longrightarrow> \<not> gt b a"
        using "1.prems"(1) unfolding sy by blast
      show "\<And>a b c. a \<in> set ys \<Longrightarrow> b \<in> set ys \<Longrightarrow> c \<in> set ys \<Longrightarrow>
                  \<not> gt a b \<Longrightarrow> \<not> gt b c \<Longrightarrow> \<not> gt a c"
        using "1.prems"(2) unfolding sy by blast
      show "\<And>a b. a < Suc i \<Longrightarrow> a < b \<Longrightarrow> b < length ys \<Longrightarrow> \<not> gt (ys ! a) (ys ! b)"
        using inv' by blast
    qed
    then show ?thesis
      by (simp add: step my ly)
  qed
qed

lemma bytes_cmp_bound: "\<bar>bytes_cmp a b\<bar> \<le> 255"
proof (induction a b rule: bytes_cmp.induct)
  case (1 x xs y ys)
  have b: "uint x < 256" "uint y < 256"
    using uint_lt2p [of x] uint_lt2p [of y] by simp_all
  have "\<bar>uint x - uint y\<bar> \<le> 255"
    using b uint_nonnegative [of x] uint_nonnegative [of y] by linarith
  then show ?case using 1 by auto
qed simp_all

lemma bytes_cmp_flip: "bytes_cmp b a = - bytes_cmp a b"
  by (induction a b rule: bytes_cmp.induct) auto

lemma bytes_cmp_trans:
  "length a = length b \<Longrightarrow> length b = length c \<Longrightarrow>
   bytes_cmp a b \<le> 0 \<Longrightarrow> bytes_cmp b c \<le> 0 \<Longrightarrow> bytes_cmp a c \<le> 0"
proof (induction a b c rule: list_induct3)
  case Nil
  then show ?case by simp
next
  case (Cons x xs y ys z zs)
  then show ?case
    by (auto simp: word_uint_eq_iff split: if_splits)
qed

lemma order_gt_asym:
  "0 < bytes_cmp a b * order \<Longrightarrow> \<not> 0 < bytes_cmp b a * order"
  by (simp add: bytes_cmp_flip [of a b])

lemma order_gt_trans:
  assumes l: "length a = length b" "length b = length c"
    and ab: "\<not> 0 < bytes_cmp a b * order" and bc: "\<not> 0 < bytes_cmp b c * order"
  shows "\<not> 0 < bytes_cmp a c * order"
proof -
  consider (pos) "0 < order" | (neg) "order < 0" | (zero) "order = 0" by linarith
  then show ?thesis
  proof cases
    case pos
    then have "bytes_cmp a b \<le> 0" "bytes_cmp b c \<le> 0"
      using ab bc by (simp_all add: zero_less_mult_iff not_less)
    then have "bytes_cmp a c \<le> 0"
      using l by (rule bytes_cmp_trans [rotated 2])
    then show ?thesis using pos by (simp add: zero_less_mult_iff)
  next
    case neg
    have "0 \<le> bytes_cmp a b" "0 \<le> bytes_cmp b c"
      using ab bc neg by (simp_all add: zero_less_mult_iff not_less)
    then have "bytes_cmp c b \<le> 0" "bytes_cmp b a \<le> 0"
      by (simp_all add: bytes_cmp_flip [of b c] bytes_cmp_flip [of a b])
    then have "bytes_cmp c a \<le> 0"
      using l by (intro bytes_cmp_trans [of c b a]) simp_all
    then have "0 \<le> bytes_cmp c a * order"
      using neg by (intro mult_nonpos_nonpos) simp_all
    then show ?thesis by (simp add: bytes_cmp_flip [of a c])
  next
    case zero
    then show ?thesis by simp
  qed
qed

lemma length_elem_at:
  "i * unat (size_v v) + unat (size_v v) \<le> length (ptr v) \<Longrightarrow>
   length (elem_at v i) = unat (size_v v)"
  by (simp add: elem_at_def)

lemma nth_elems_of: "i < unat (len v) \<Longrightarrow> elems_of v ! i = elem_at v i"
  by (simp add: elems_of_def)

lemma length_elems_of: "length (elems_of v) = unat (len v)"
  by (simp add: elems_of_def)

lemma elems_of_lengths:
  assumes ok: "vec_ok v" and a: "a \<in> set (elems_of v)"
  shows "length a = unat (size_v v)"
proof -
  from a obtain i where i: "i < unat (len v)" "a = elem_at v i"
    by (auto simp: elems_of_def)
  have u: "unat (of_nat i :: size_t) = i"
    using i(1) by (intro le_unat_uoi [of _ "len v"]) simp
  then have "(of_nat i :: size_t) < len v" "unat (of_nat i :: size_t) = i"
    using i(1) by (simp_all add: word_less_nat_alt)
  then show ?thesis
    using in_range_fits(1) [OF ok, of "of_nat i"] i by (simp add: length_elem_at)
qed

lemma v_cmp_elems:
  assumes ok: "vec_ok v" and pos: "pos1 < len v" "pos2 < len v"
  shows "v_cmp v pos1 (v_at_ptr v pos2) 1
           = Inr (bytes_cmp (elem_at v (unat pos1)) (elem_at v (unat pos2)))"
proof -
  let ?s = "unat (size_v v)"
  note f1 = in_range_fits [OF ok pos(1)] and f2 = in_range_fits [OF ok pos(2)]
  have o1: "v_at v pos1 = unat pos1 * ?s" and o2: "v_at v pos2 = unat pos2 * ?s"
    using f1(2) f2(2) by (simp_all add: v_at_def unat_mult_size)
  have "?s \<le> length (drop (unat pos1 * ?s) (ptr v))" "?s \<le> length (drop (unat pos2 * ?s) (ptr v))"
    using f1(1) f2(1) by simp_all
  then show ?thesis
    by (simp add: v_cmp_def memcmp_def mem_read_def v_at_ptr_def o1 o2 elem_at_def)
qed

lemma int_mult_small:
  assumes "\<bar>c\<bar> \<le> 255" "\<bar>order\<bar> \<le> 8421504"
  shows "int_mult c order = Inr (c * order)"
proof -
  have "\<bar>c * order\<bar> \<le> 255 * 8421504"
    unfolding abs_mult using assms by (intro mult_mono) simp_all
  then show ?thesis
    by (simp add: int_mult_def INT_MIN_def INT_MAX_def abs_le_iff)
qed

lemma vec_ok_cong:
  "vec_ok v \<Longrightarrow> len v' = len v \<Longrightarrow> cap v' = cap v \<Longrightarrow> size_v v' = size_v v \<Longrightarrow>
   length (ptr v') = length (ptr v) \<Longrightarrow> vec_ok v'"
  by (simp add: vec_ok_def)

lemma unat_counter:
  "j \<le> unat (w :: size_t) \<Longrightarrow> unat (word_of_int (int j) :: size_t) = j"
  using le_unat_uoi [of j w] by simp

lemma sort_inner_refines:
  assumes ok: "vec_ok v" and small: "unat (len v) \<le> 2147483647"
    and tmp: "unat (size_v v) \<le> length pval" and ord: "\<bar>order\<bar> \<le> 8421504"
    and ij: "i < j" "j \<le> unat (len v)"
  shows "\<exists>v' pval'. sort_inner v order pval (int i) (int j) = Inr (v', pval') \<and>
           vec_ok v' \<and> len v' = len v \<and> size_v v' = size_v v \<and>
           length pval' = length pval \<and>
           elems_of v' = exchange_inner (\<lambda>a b. 0 < bytes_cmp a b * order) (elems_of v) i j"
  using ok small tmp ij
proof (induction "unat (len v) - j" arbitrary: v pval j)
  case 0
  then have j: "j = unat (len v)" by simp
  have "unat (word_of_int (int j) :: size_t) = j"
    using "0.prems"(5) by (rule unat_counter)
  then have "\<not> (word_of_int (int j) :: size_t) < len v"
    using j by (simp add: word_less_nat_alt)
  then have "sort_inner v order pval (int i) (int j) = Inr (v, pval)"
    by (subst sort_inner.simps) simp
  moreover have "exchange_inner (\<lambda>a b. 0 < bytes_cmp a b * order) (elems_of v) i j = elems_of v"
    using j by (subst exchange_inner.simps) (simp add: length_elems_of)
  ultimately show ?case using "0.prems"(1) by simp
next
  case (Suc n)
  let ?gt = "\<lambda>a b. 0 < bytes_cmp a b * order"
  let ?xs = "elems_of v"
  let ?pi = "word_of_nat i :: size_t" and ?pj = "word_of_nat j :: size_t"
  have jL: "j < unat (len v)" using Suc.hyps(2) by simp
  have iL: "i < unat (len v)" using jL Suc.prems(4) by simp
  have ui: "unat ?pi = i"
    by (rule le_unat_uoi [of i "len v"]) (use iL in simp)
  have uj: "unat ?pj = j"
    by (rule le_unat_uoi [of j "len v"]) (use jL in simp)
  have pi: "?pi < len v" and pj: "?pj < len v"
    using iL jL ui uj by (simp_all add: word_less_nat_alt)
  define c where "c = bytes_cmp (?xs ! i) (?xs ! j)"
  have cmp: "v_cmp v ?pi (v_at_ptr v ?pj) 1 = Inr c"
    using v_cmp_elems [OF Suc.prems(1) pi pj] iL jL by (simp add: ui uj c_def nth_elems_of)
  have mul: "int_mult c order = Inr (c * order)"
    using bytes_cmp_bound ord by (simp add: c_def int_mult_small)
  define ys where "ys = (if ?gt (?xs ! i) (?xs ! j) then ?xs[i := ?xs ! j, j := ?xs ! i] else ?xs)"
  have "\<exists>v1 pval1.
          (if 0 < c * order then vec_swap v ?pi ?pj pval else Inr (v, pval)) = Inr (v1, pval1) \<and>
          vec_ok v1 \<and> len v1 = len v \<and> size_v v1 = size_v v \<and>
          length pval1 = length pval \<and> elems_of v1 = ys"
  proof (cases "0 < c * order")
    case True
    from vec_swap_in_range [OF Suc.prems(1) pi pj Suc.prems(3)] obtain v1 pval1 where
      sw: "vec_swap v ?pi ?pj pval = Inr (v1, pval1)"
      and f: "len v1 = len v" "cap v1 = cap v" "size_v v1 = size_v v"
             "length (ptr v1) = length (ptr v)" "length pval1 = length pval"
      and el: "elems_of v1 = ?xs[unat ?pi := ?xs ! unat ?pj, unat ?pj := ?xs ! unat ?pi]"
      by blast
    have "vec_ok v1"
      using Suc.prems(1) f(1-4) by (rule vec_ok_cong)
    then show ?thesis
      using True sw f el by (simp add: ys_def c_def ui uj)
  next
    case False
    then show ?thesis
      using Suc.prems(1) by (simp add: ys_def c_def)
  qed
  then obtain v1 pval1 where
    st: "(if 0 < c * order then vec_swap v ?pi ?pj pval else Inr (v, pval)) = Inr (v1, pval1)"
    and ok1: "vec_ok v1" and f1: "len v1 = len v" "size_v v1 = size_v v"
    and lp: "length pval1 = length pval" and e1: "elems_of v1 = ys"
    by blast
  have jmax: "int j < INT_MAX"
    using jL Suc.prems(2) by (simp add: INT_MAX_def)
  have sj: "int j + 1 = int (Suc j)" by simp
  have "sort_inner v order pval (int i) (int j)
      = sort_inner v1 order pval1 (int i) (int j + 1)"
  proof (cases "0 < c * order")
    case True
    then have "vec_swap v ?pi ?pj pval = Inr (v1, pval1)" using st by simp
    then show ?thesis
      using pj cmp mul jmax True by (subst sort_inner.simps) simp
  next
    case False
    then have "v1 = v" "pval1 = pval" using st by simp_all
    then show ?thesis
      using pj cmp mul jmax False by (subst sort_inner.simps) simp
  qed
  then have unfold: "sort_inner v order pval (int i) (int j)
      = sort_inner v1 order pval1 (int i) (int (Suc j))"
    by (simp only: sj)
  have "\<exists>v' pval'. sort_inner v1 order pval1 (int i) (int (Suc j)) = Inr (v', pval') \<and>
           vec_ok v' \<and> len v' = len v1 \<and> size_v v' = size_v v1 \<and>
           length pval' = length pval1 \<and>
           elems_of v' = exchange_inner ?gt (elems_of v1) i (Suc j)"
  proof (rule Suc.hyps(1))
    show "n = unat (len v1) - Suc j" using Suc.hyps(2) by (simp add: f1)
    show "vec_ok v1" by (rule ok1)
    show "unat (len v1) \<le> 2147483647" using Suc.prems(2) by (simp add: f1)
    show "unat (size_v v1) \<le> length pval1" using Suc.prems(3) by (simp add: f1 lp)
    show "i < Suc j" using Suc.prems(4) by simp
    show "Suc j \<le> unat (len v1)" using jL by (simp add: f1)
  qed
  moreover have "exchange_inner ?gt ?xs i j = exchange_inner ?gt ys i (Suc j)"
    using jL by (subst exchange_inner.simps) (simp add: ys_def length_elems_of)
  ultimately show ?case
    by (simp add: unfold f1 lp e1)
qed

lemma sort_outer_refines:
  assumes ok: "vec_ok v" and small: "unat (len v) \<le> 2147483647"
    and tmp: "unat (size_v v) \<le> length pval" and ord: "\<bar>order\<bar> \<le> 8421504"
    and i: "i \<le> unat (len v)"
  shows "\<exists>v' pval'. sort_outer v order pval (int i) = Inr (v', pval') \<and>
           vec_ok v' \<and> len v' = len v \<and> size_v v' = size_v v \<and>
           elems_of v' = exchange_outer (\<lambda>a b. 0 < bytes_cmp a b * order) (elems_of v) i"
  using ok small tmp i
proof (induction "unat (len v) - i" arbitrary: v pval i)
  case 0
  then have i: "i = unat (len v)" by simp
  have "unat (word_of_int (int i) :: size_t) = i"
    using "0.prems"(4) by (rule unat_counter)
  then have "\<not> (word_of_int (int i) :: size_t) < len v"
    using i by (simp add: word_less_nat_alt)
  then have "sort_outer v order pval (int i) = Inr (v, pval)"
    by (subst sort_outer.simps) simp
  moreover have "exchange_outer (\<lambda>a b. 0 < bytes_cmp a b * order) (elems_of v) i = elems_of v"
    using i by (subst exchange_outer.simps) (simp add: length_elems_of)
  ultimately show ?case using "0.prems"(1) by simp
next
  case (Suc n)
  let ?gt = "\<lambda>a b. 0 < bytes_cmp a b * order"
  let ?pi = "word_of_nat i :: size_t"
  have iL: "i < unat (len v)" using Suc.hyps(2) by simp
  have ui: "unat ?pi = i"
    by (rule le_unat_uoi [of i "len v"]) (use iL in simp)
  have pi: "?pi < len v"
    using iL ui by (simp add: word_less_nat_alt)
  have imax: "int i < INT_MAX"
    using iL Suc.prems(2) by (simp add: INT_MAX_def)
  from sort_inner_refines [OF Suc.prems(1,2,3) ord, of i "Suc i"] iL obtain v1 pval1 where
    inner: "sort_inner v order pval (int i) (int (Suc i)) = Inr (v1, pval1)"
    and ok1: "vec_ok v1" and f1: "len v1 = len v" "size_v v1 = size_v v"
    and lp: "length pval1 = length pval"
    and e1: "elems_of v1 = exchange_inner ?gt (elems_of v) i (Suc i)"
    by auto
  have si: "int i + 1 = int (Suc i)" by simp
  have "sort_outer v order pval (int i) = sort_outer v1 order pval1 (int i + 1)"
    using pi imax inner [folded si] by (subst sort_outer.simps) simp
  then have unfold: "sort_outer v order pval (int i) = sort_outer v1 order pval1 (int (Suc i))"
    by (simp only: si)
  have "\<exists>v' pval'. sort_outer v1 order pval1 (int (Suc i)) = Inr (v', pval') \<and>
           vec_ok v' \<and> len v' = len v1 \<and> size_v v' = size_v v1 \<and>
           elems_of v' = exchange_outer ?gt (elems_of v1) (Suc i)"
  proof (rule Suc.hyps(1))
    show "n = unat (len v1) - Suc i" using Suc.hyps(2) by (simp add: f1)
    show "vec_ok v1" by (rule ok1)
    show "unat (len v1) \<le> 2147483647" using Suc.prems(2) by (simp add: f1)
    show "unat (size_v v1) \<le> length pval1" using Suc.prems(3) by (simp add: f1 lp)
    show "Suc i \<le> unat (len v1)" using iL by (simp add: f1)
  qed
  moreover have "exchange_outer ?gt (elems_of v) i
      = exchange_outer ?gt (exchange_inner ?gt (elems_of v) i (Suc i)) (Suc i)"
    using iL by (subst exchange_outer.simps) (simp add: length_elems_of)
  ultimately show ?case
    by (simp add: unfold f1 e1)
qed

text \<open>
  An array of \<open>2^31\<close> one-byte elements, all zero. In the first pass of the inner
  loop nothing is exchanged, and the counter \<open>j\<close> reaches \<open>INT_MAX\<close> while still
  below \<open>v->len\<close>.
\<close>

lemma big_vec_ok:
  "vec_ok \<lparr>ptr = replicate 2147483648 0, size_v = 1, len = 2147483648, cap = 2147483648\<rparr>"
  by (simp add: vec_ok_def PTRDIFF_MAX_def)

lemma big_elem_at:
  assumes "k < 2147483648"
  shows "elem_at \<lparr>ptr = replicate 2147483648 0, size_v = 1, len = 2147483648,
                  cap = 2147483648\<rparr> k = [0]"
proof -
  have "take 1 (drop k (replicate 2147483648 (0 :: byte))) = replicate (min 1 (2147483648 - k)) 0"
    by (simp only: drop_replicate take_replicate)
  also have "min 1 (2147483648 - k) = 1"
    using assms by simp
  finally show ?thesis
    by (simp add: elem_at_def)
qed

lemma big_sort_inner:
  assumes "1 \<le> k" "k \<le> 2147483647"
  shows "sort_inner \<lparr>ptr = replicate 2147483648 0, size_v = 1, len = 2147483648,
                     cap = 2147483648\<rparr> 1 pval 0 (int k) = Inl SignedOverflow"
  using assms
proof (induction "2147483647 - k" arbitrary: k)
  case 0
  let ?v = "\<lparr>ptr = replicate 2147483648 0, size_v = 1, len = 2147483648, cap = 2147483648\<rparr>"
  let ?pk = "word_of_nat k :: size_t"
  have k: "k = 2147483647" using 0 by simp
  have uk: "unat ?pk = k"
    by (rule le_unat_uoi [of k "len ?v"]) (simp add: k)
  have pk: "?pk < len ?v" and p0: "(0 :: size_t) < len ?v"
    using uk by (simp_all add: word_less_nat_alt k)
  have cmp: "v_cmp ?v 0 (v_at_ptr ?v ?pk) 1 = Inr 0"
    using v_cmp_elems [OF big_vec_ok p0 pk] by (simp add: uk big_elem_at k)
  show ?case
    using pk cmp by (subst sort_inner.simps) (simp add: int_mult_def INT_MIN_def INT_MAX_def k)
next
  case (Suc n)
  let ?v = "\<lparr>ptr = replicate 2147483648 0, size_v = 1, len = 2147483648, cap = 2147483648\<rparr>"
  let ?pk = "word_of_nat k :: size_t"
  have k: "k < 2147483647" using Suc.hyps(2) by simp
  have uk: "unat ?pk = k"
    by (rule le_unat_uoi [of k "len ?v"]) (use k in simp)
  have pk: "?pk < len ?v" and p0: "(0 :: size_t) < len ?v"
    using uk k by (simp_all add: word_less_nat_alt)
  have cmp: "v_cmp ?v 0 (v_at_ptr ?v ?pk) 1 = Inr 0"
    using v_cmp_elems [OF big_vec_ok p0 pk] k by (simp add: uk big_elem_at)
  have sk: "int k + 1 = int (Suc k)" by simp
  have "sort_inner ?v 1 pval 0 (int k) = sort_inner ?v 1 pval 0 (int k + 1)"
    using pk cmp k by (subst sort_inner.simps) (simp add: int_mult_def INT_MIN_def INT_MAX_def)
  also have "\<dots> = Inl SignedOverflow"
    unfolding sk using Suc.hyps(2) Suc.prems by (intro Suc.hyps(1)) simp_all
  finally show ?case .
qed

text \<open>
  C9, as stated, fails for arrays of more than \<open>INT_MAX\<close> elements: the loop
  counters are \<open>int\<close>s compared with the \<open>size_t\<close> length, and on the valid array of
  \<open>2^31\<close> zero bytes \<open>j++\<close> overflows at \<open>j = INT_MAX\<close>, so that no sorted array is
  produced.
\<close>

theorem vec_sort_counter_overflows:
  "vec_ok \<lparr>ptr = replicate 2147483648 0, size_v = 1, len = 2147483648, cap = 2147483648\<rparr> \<and>
   vec_sort (\<lambda>_. 0)
       \<lparr>ptr = replicate 2147483648 0, size_v = 1, len = 2147483648, cap = 2147483648\<rparr> 1
     = Inl SignedOverflow"
proof -
  have "sort_inner \<lparr>ptr = replicate 2147483648 0, size_v = 1, len = 2147483648,
                    cap = 2147483648\<rparr> 1 pval 0 (0 + 1) = Inl SignedOverflow" for pval
    using big_sort_inner [of 1 pval] by simp
  then have "sort_outer \<lparr>ptr = replicate 2147483648 0, size_v = 1, len = 2147483648,
                    cap = 2147483648\<rparr> 1 pval 0 = Inl SignedOverflow" for pval
    by (subst sort_outer.simps) (simp add: INT_MAX_def)
  then show ?thesis
    using big_vec_ok by (simp add: vec_sort_def)
qed

text \<open>
  C9, amended. Let \<open>v\<close> be a valid vector of at most \<open>INT_MAX\<close> elements (the loop counters
  are \<open>int\<close>s) and \<open>order\<close> an \<open>int\<close> small enough for its product with a result of
  \<open>memcmp\<close> (at most 255 in absolute value) not to overflow. Then \<open>vec_sort\<close> returns,
  the elements of the result are a permutation of the elements of \<open>v\<close>, for
  \<open>order > 0\<close> (ascending) every element compares \<open>\<le> 0\<close> under \<open>memcmp\<close> over one
  stride with every later one, for \<open>order < 0\<close> (descending) \<open>\<ge> 0\<close>, and sorting the
  result again with the same \<open>order\<close> leaves its elements as they are.
\<close>

theorem vec_sort_sorts:
  assumes ok: "vec_ok v" and small: "unat (len v) \<le> 2147483647"
    and ord: "\<bar>order\<bar> \<le> 8421504"
  shows "\<exists>v'. vec_sort u v order = Inr v' \<and>
           len v' = len v \<and> size_v v' = size_v v \<and>
           mset (elems_of v') = mset (elems_of v) \<and>
           (0 < order \<longrightarrow> sorted_wrt (\<lambda>a b. bytes_cmp a b \<le> 0) (elems_of v')) \<and>
           (order < 0 \<longrightarrow> sorted_wrt (\<lambda>a b. 0 \<le> bytes_cmp a b) (elems_of v')) \<and>
           (\<exists>v''. vec_sort u' v' order = Inr v'' \<and> elems_of v'' = elems_of v')"
proof -
  let ?gt = "\<lambda>a b. 0 < bytes_cmp a b * order"
  have room: "unat (size_v w) \<le> length
      (if size_v w < 256 then fresh f 0 256 else fresh f 0 (unat (size_v w)))"
    for w :: Vec and f
    by (simp add: length_fresh word_less_nat_alt)
  have run: "\<exists>w'. vec_sort f w order = Inr w' \<and> vec_ok w' \<and> len w' = len w \<and>
                size_v w' = size_v w \<and> elems_of w' = exchange_outer ?gt (elems_of w) 0"
    if "vec_ok w" "unat (len w) \<le> 2147483647" for w :: Vec and f
    using sort_outer_refines [OF that room [of w f] ord, of 0]
    by (auto simp: vec_sort_def Let_def)
  from run [OF ok small, of u] obtain v' where
    s1: "vec_sort u v order = Inr v'" and ok': "vec_ok v'"
    and f: "len v' = len v" "size_v v' = size_v v"
    and e: "elems_of v' = exchange_outer ?gt (elems_of v) 0"
    by blast
  have lens: "length a = length b" if "a \<in> set (elems_of v)" "b \<in> set (elems_of v)" for a b
    using elems_of_lengths [OF ok] that by simp
  have "mset (exchange_outer ?gt (elems_of v) 0) = mset (elems_of v) \<and>
        (\<forall>a b. a < b \<and> b < length (elems_of v) \<longrightarrow>
            \<not> ?gt (exchange_outer ?gt (elems_of v) 0 ! a) (exchange_outer ?gt (elems_of v) 0 ! b))"
  proof (rule exchange_outer_sorts)
    show "\<And>a b. a \<in> set (elems_of v) \<Longrightarrow> b \<in> set (elems_of v) \<Longrightarrow> ?gt a b \<Longrightarrow> \<not> ?gt b a"
      by (rule order_gt_asym)
    show "\<And>a b c. a \<in> set (elems_of v) \<Longrightarrow> b \<in> set (elems_of v) \<Longrightarrow>
            c \<in> set (elems_of v) \<Longrightarrow> \<not> ?gt a b \<Longrightarrow> \<not> ?gt b c \<Longrightarrow> \<not> ?gt a c"
      using lens order_gt_trans by blast
    show "\<And>a b. a < 0 \<Longrightarrow> a < b \<Longrightarrow> b < length (elems_of v) \<Longrightarrow>
            \<not> ?gt (elems_of v ! a) (elems_of v ! b)"
      by simp
  qed
  then have perm: "mset (elems_of v') = mset (elems_of v)"
    and srt: "\<And>a b. a < b \<Longrightarrow> b < length (elems_of v') \<Longrightarrow>
                \<not> ?gt (elems_of v' ! a) (elems_of v' ! b)"
    by (simp_all add: e length_exchange_outer)
  have asc: "sorted_wrt (\<lambda>a b. bytes_cmp a b \<le> 0) (elems_of v')" if "0 < order"
    using srt that by (auto simp: sorted_wrt_iff_nth_less zero_less_mult_iff not_less)
  have desc: "sorted_wrt (\<lambda>a b. 0 \<le> bytes_cmp a b) (elems_of v')" if "order < 0"
    using srt that by (auto simp: sorted_wrt_iff_nth_less zero_less_mult_iff not_less)
  from run [OF ok', of u'] small obtain v'' where
    s2: "vec_sort u' v' order = Inr v''"
    and e2: "elems_of v'' = exchange_outer ?gt (elems_of v') 0"
    by (auto simp: f)
  have "exchange_outer ?gt (elems_of v') 0 = elems_of v'"
    using srt by (rule exchange_outer_fixed)
  then have "elems_of v'' = elems_of v'"
    by (simp add: e2)
  then show ?thesis
    using s1 f perm asc desc s2 by blast
qed

theorem vec_sort_sorts_witness:
  "vec_ok \<lparr>ptr = [3, 1, 2], size_v = 1, len = 3, cap = 3\<rparr> \<and>
   (\<exists>v'. vec_sort (\<lambda>_. 0) \<lparr>ptr = [3, 1, 2], size_v = 1, len = 3, cap = 3\<rparr> 1 = Inr v' \<and>
      len v' = 3 \<and> size_v v' = 1 \<and>
      mset (elems_of v') = mset (elems_of \<lparr>ptr = [3, 1, 2], size_v = 1, len = 3, cap = 3\<rparr>) \<and>
      sorted_wrt (\<lambda>a b. bytes_cmp a b \<le> 0) (elems_of v') \<and>
      (\<exists>v''. vec_sort (\<lambda>_. 0) v' 1 = Inr v'' \<and> elems_of v'' = elems_of v')) \<and>
   (\<exists>v'. vec_sort (\<lambda>_. 0) \<lparr>ptr = [3, 1, 2], size_v = 1, len = 3, cap = 3\<rparr> (- 1) = Inr v' \<and>
      len v' = 3 \<and> size_v v' = 1 \<and>
      mset (elems_of v') = mset (elems_of \<lparr>ptr = [3, 1, 2], size_v = 1, len = 3, cap = 3\<rparr>) \<and>
      sorted_wrt (\<lambda>a b. 0 \<le> bytes_cmp a b) (elems_of v') \<and>
      (\<exists>v''. vec_sort (\<lambda>_. 0) v' (- 1) = Inr v'' \<and> elems_of v'' = elems_of v'))"
proof -
  let ?v = "\<lparr>ptr = [3, 1, 2], size_v = 1, len = 3, cap = 3\<rparr>"
  have ok: "vec_ok ?v"
    by (simp add: vec_ok_def PTRDIFF_MAX_def)
  show ?thesis
    using ok vec_sort_sorts [of ?v 1 "\<lambda>_. 0" "\<lambda>_. 0"]
      vec_sort_sorts [of ?v "- 1" "\<lambda>_. 0" "\<lambda>_. 0"]
    by simp
qed

text \<open>The loops, run on three one-byte elements.\<close>

lemma vec_sort_example:
  "vec_sort u \<lparr>ptr = [3, 1, 2], size_v = 1, len = 3, cap = 3\<rparr> 1
     = Inr \<lparr>ptr = [1, 2, 3], size_v = 1, len = 3, cap = 3\<rparr>"
  by (simp add: vec_sort_def sort_outer.simps sort_inner.simps INT_MAX_def INT_MIN_def
      int_mult_def v_cmp_def memcmp_def mem_read_def mem_write_def v_at_ptr_def v_at_def
      vec_swap_def v_cpy_to_def v_cpy_def memcpy_def length_fresh)

end
